theory Spec2Isabelle
  imports Main "HOL-Library.Word" "HOL-Library.Multiset" "HOL-Library.Monad_Syntax"
begin

unbundle bit_operations_syntax

section \<open>Memory model\<close>

text \<open>
  Pointers are addresses, the null pointer is address 0. The heap gives, for every
  address, the fields a C object at that address would have: the two links of a
  \<^verbatim>\<open>struct list_head\<close>, and the \<^verbatim>\<open>value\<close> pointer of the
  \<^verbatim>\<open>element_t\<close> that embeds the link node (\<^verbatim>\<open>list_entry\<close> is pointer arithmetic
  only, so an element is identified with the address of its link node). A string buffer is
  represented by the bytes it holds before its terminator. \<open>allocd\<close> is the set of blocks
  handed out by the allocator and not yet released.
\<close>

type_synonym ptr = nat

abbreviation NULL :: ptr where
  "NULL \<equiv> 0"

abbreviation NUL :: char where
  "NUL \<equiv> CHR 0x00"

record heap =
  nxt :: "ptr \<Rightarrow> ptr"
  prv :: "ptr \<Rightarrow> ptr"
  val :: "ptr \<Rightarrow> ptr"
  str :: "ptr \<Rightarrow> string"
  allocd :: "ptr set"

definition store_next :: "heap \<Rightarrow> ptr \<Rightarrow> ptr \<Rightarrow> heap" where
  "store_next h p v = h\<lparr>nxt := (nxt h)(p := v)\<rparr>"

definition store_prev :: "heap \<Rightarrow> ptr \<Rightarrow> ptr \<Rightarrow> heap" where
  "store_prev h p v = h\<lparr>prv := (prv h)(p := v)\<rparr>"

definition store_value :: "heap \<Rightarrow> ptr \<Rightarrow> ptr \<Rightarrow> heap" where
  "store_value h p v = h\<lparr>val := (val h)(p := v)\<rparr>"

subsection \<open>The allocator and the C library\<close>

text \<open>
  Modelled from the spec: \<^verbatim>\<open>malloc\<close>, \<^verbatim>\<open>strdup\<close> and \<^verbatim>\<open>free\<close> (harness.h and the
  C library are not part of the sources). The allocator's answer is an input: \<open>r\<close> is
  the address it returns, \<open>NULL\<close> when the allocation fails. \<^verbatim>\<open>strdup\<close> allocates a
  buffer and copies the bytes of its argument into it. \<^verbatim>\<open>free\<close> of the null pointer
  does nothing.
\<close>

definition malloc :: "heap \<Rightarrow> ptr \<Rightarrow> heap \<times> ptr" where
  "malloc h r = (if r = NULL then (h, NULL) else (h\<lparr>allocd := insert r (allocd h)\<rparr>, r))"

definition strdup :: "heap \<Rightarrow> string \<Rightarrow> ptr \<Rightarrow> heap \<times> ptr" where
  "strdup h s r =
     (if r = NULL then (h, NULL)
      else (h\<lparr>str := (str h)(r := s), allocd := insert r (allocd h)\<rparr>, r))"

definition free :: "heap \<Rightarrow> ptr \<Rightarrow> heap" where
  "free h p = (if p = NULL then h else h\<lparr>allocd := allocd h - {p}\<rparr>)"

text \<open>
  Modelled from the spec: \<^verbatim>\<open>strcmp\<close> (C library), the byte-wise lexicographic
  comparison of two strings, bytes read as unsigned. Only the sign of the result is
  specified by C, and only the sign is used by the code.
\<close>

fun strcmp :: "string \<Rightarrow> string \<Rightarrow> int" where
  "strcmp [] [] = 0"
| "strcmp [] (y # ys) = - 1"
| "strcmp (x # xs) [] = 1"
| "strcmp (x # xs) (y # ys) =
     (if x = y then strcmp xs ys
      else if (of_char x :: nat) < of_char y then - 1 else 1)"

text \<open>
  Modelled from the spec: \<^verbatim>\<open>strncpy\<close> (C library) writes exactly \<open>n\<close> bytes to the
  destination: the bytes of the source string, cut after \<open>n\<close> bytes or filled up with
  terminators. The destination is the caller's buffer, a byte array of known length;
  a write beyond its end is a fault.
\<close>

datatype fault = OutOfBounds

definition strncpy :: "char list \<Rightarrow> string \<Rightarrow> nat \<Rightarrow> fault + char list" where
  "strncpy dst src n =
     (if n \<le> length dst
      then Inr (take n src @ replicate (n - length src) NUL @ drop n dst)
      else Inl OutOfBounds)"

definition store_byte :: "char list \<Rightarrow> nat \<Rightarrow> char \<Rightarrow> fault + char list" where
  "store_byte buf i c = (if i < length buf then Inr (buf[i := c]) else Inl OutOfBounds)"

subsection \<open>list.h\<close>

text \<open>
  Modelled from the spec: the inline functions and macros of list.h (not part of the
  sources), the usual circular doubly-linked list with a sentinel:
  \<^verbatim>\<open>INIT_LIST_HEAD\<close> makes a node its own successor and predecessor,
  \<^verbatim>\<open>list_empty\<close> tests \<^verbatim>\<open>head->next == head\<close>,
  \<^verbatim>\<open>list_add\<close> links a node right after \<^verbatim>\<open>head\<close>,
  \<^verbatim>\<open>list_add_tail\<close> right before it,
  \<^verbatim>\<open>list_del\<close> unlinks a node by joining its two neighbours,
  \<^verbatim>\<open>list_first_entry\<close> and \<^verbatim>\<open>list_last_entry\<close> are the elements at
  \<^verbatim>\<open>head->next\<close> and \<^verbatim>\<open>head->prev\<close>.
\<close>

definition INIT_LIST_HEAD :: "heap \<Rightarrow> ptr \<Rightarrow> heap" where
  "INIT_LIST_HEAD h head = store_prev (store_next h head head) head head"

definition list_empty :: "heap \<Rightarrow> ptr \<Rightarrow> bool" where
  "list_empty h head = (nxt h head = head)"

definition list_add :: "heap \<Rightarrow> ptr \<Rightarrow> ptr \<Rightarrow> heap" where
  "list_add h node head =
     (let nextp = nxt h head;
          h1 = store_prev h nextp node;
          h2 = store_next h1 node nextp;
          h3 = store_prev h2 node head
      in store_next h3 head node)"

definition list_add_tail :: "heap \<Rightarrow> ptr \<Rightarrow> ptr \<Rightarrow> heap" where
  "list_add_tail h node head =
     (let prevp = prv h head;
          h1 = store_next h prevp node;
          h2 = store_next h1 node head;
          h3 = store_prev h2 node prevp
      in store_prev h3 head node)"

definition list_del :: "heap \<Rightarrow> ptr \<Rightarrow> heap" where
  "list_del h node =
     (let nextp = nxt h node;
          prevp = prv h node;
          h1 = store_prev h nextp prevp
      in store_next h1 prevp nextp)"

definition list_first_entry :: "heap \<Rightarrow> ptr \<Rightarrow> ptr" where
  "list_first_entry h head = nxt h head"

definition list_last_entry :: "heap \<Rightarrow> ptr \<Rightarrow> ptr" where
  "list_last_entry h head = prv h head"

section \<open>queue.c\<close>

subsection \<open>Construction, insertion, removal, size\<close>

definition q_new :: "heap \<Rightarrow> ptr \<Rightarrow> heap \<times> ptr" where
  "q_new h r =
     (let (h1, n) = malloc h r
      in if n = NULL then (h1, NULL) else (INIT_LIST_HEAD h1 n, n))"

definition q_release_element :: "heap \<Rightarrow> ptr \<Rightarrow> heap" where
  "q_release_element h e = free (free h (val h e)) e"

text \<open>
  \<open>q_insert_head h head s r1 r2\<close>: \<open>r1\<close> is the allocator's answer to the
  \<^verbatim>\<open>malloc\<close> of the element, \<open>r2\<close> its answer to the \<^verbatim>\<open>strdup\<close>.
\<close>

definition q_insert_head :: "heap \<Rightarrow> ptr \<Rightarrow> string \<Rightarrow> ptr \<Rightarrow> ptr \<Rightarrow> heap \<times> bool" where
  "q_insert_head h head s r1 r2 =
     (if head = NULL then (h, False)
      else let (h1, e) = malloc h r1 in
        if e = NULL then (h1, False)
        else let (h2, v) = strdup h1 s r2;
                 h3 = store_value h2 e v in
          if val h3 e = NULL then (q_release_element h3 e, False)
          else (list_add h3 e head, True))"

definition q_insert_tail :: "heap \<Rightarrow> ptr \<Rightarrow> string \<Rightarrow> ptr \<Rightarrow> ptr \<Rightarrow> heap \<times> bool" where
  "q_insert_tail h head s r1 r2 =
     (if head = NULL then (h, False)
      else let (h1, e) = malloc h r1 in
        if e = NULL then (h1, False)
        else let (h2, v) = strdup h1 s r2;
                 h3 = store_value h2 e v in
          if val h3 e = NULL then (q_release_element h3 e, False)
          else (list_add_tail h3 e head, True))"

text \<open>
  The output buffer \<open>sp\<close> is \<open>None\<close> for a null pointer, otherwise the caller's byte
  array. \<open>bufsize\<close> is a \<^verbatim>\<open>size_t\<close>, an unsigned machine word, so \<open>bufsize - 1\<close>
  wraps around at 0. The result is the heap, the removed element (or \<open>NULL\<close>) and the
  buffer, or a fault when a write leaves the buffer.
\<close>

definition copy_out :: "char list \<Rightarrow> string \<Rightarrow> 'a::len word \<Rightarrow> fault + char list" where
  "copy_out buf s bufsize =
     (case strncpy buf s (unat (bufsize - 1)) of
        Inl f \<Rightarrow> Inl f
      | Inr buf1 \<Rightarrow> store_byte buf1 (unat (bufsize - 1)) NUL)"

definition q_remove_head ::
  "heap \<Rightarrow> ptr \<Rightarrow> char list option \<Rightarrow> 'a::len word \<Rightarrow> fault + (heap \<times> ptr \<times> char list option)" where
  "q_remove_head h head sp bufsize =
     (if head = NULL \<or> list_empty h head then Inr (h, NULL, sp)
      else let e = list_first_entry h head;
               h1 = list_del h e in
        (case sp of
           None \<Rightarrow> Inr (h1, e, None)
         | Some buf \<Rightarrow>
             (case copy_out buf (str h1 (val h1 e)) bufsize of
                Inl f \<Rightarrow> Inl f
              | Inr buf1 \<Rightarrow> Inr (h1, e, Some buf1))))"

definition q_remove_tail ::
  "heap \<Rightarrow> ptr \<Rightarrow> char list option \<Rightarrow> 'a::len word \<Rightarrow> fault + (heap \<times> ptr \<times> char list option)" where
  "q_remove_tail h head sp bufsize =
     (if head = NULL \<or> list_empty h head then Inr (h, NULL, sp)
      else let e = list_last_entry h head;
               h1 = list_del h e in
        (case sp of
           None \<Rightarrow> Inr (h1, e, None)
         | Some buf \<Rightarrow>
             (case copy_out buf (str h1 (val h1 e)) bufsize of
                Inl f \<Rightarrow> Inl f
              | Inr buf1 \<Rightarrow> Inr (h1, e, Some buf1))))"

text \<open>
  The loops walk the heap and need not come back on a heap that is not a ring, so they
  are partial functions: \<open>None\<close> is a loop that never ends. The counter of \<^verbatim>\<open>q_size\<close>
  is an \<^verbatim>\<open>int\<close>, a 32-bit word read as signed.
\<close>

partial_function (option) q_size_loop :: "heap \<Rightarrow> ptr \<Rightarrow> ptr \<Rightarrow> 32 word \<Rightarrow> 32 word option" where
  "q_size_loop h head pos sz =
     (if pos \<noteq> head then q_size_loop h head (nxt h pos) (sz + 1) else Some sz)"

definition q_size :: "heap \<Rightarrow> ptr \<Rightarrow> 32 word option" where
  "q_size h head =
     (if head = NULL \<or> list_empty h head then Some 0
      else q_size_loop h head (nxt h head) 0)"

subsection \<open>Deleting the middle element\<close>

partial_function (option) q_delete_mid_loop :: "heap \<Rightarrow> ptr \<Rightarrow> ptr \<Rightarrow> ptr \<Rightarrow> ptr option" where
  "q_delete_mid_loop h head fast slow =
     (if fast \<noteq> head \<and> nxt h fast \<noteq> head
      then q_delete_mid_loop h head (nxt h (nxt h fast)) (nxt h slow)
      else Some slow)"

definition q_delete_mid :: "heap \<Rightarrow> ptr \<Rightarrow> (heap \<times> bool) option" where
  "q_delete_mid h head =
     (if head = NULL \<or> list_empty h head then Some (h, False)
      else do {
        slow \<leftarrow> q_delete_mid_loop h head (nxt h head) (nxt h head);
        Some (q_release_element (list_del h slow) slow, True)
      })"

subsection \<open>Deleting duplicates\<close>

text \<open>
  The inner loop of \<^verbatim>\<open>q_delete_dup\<close>: \<open>start\<close> is fixed, the state is the heap,
  \<open>endp\<close> and \<open>prev\<close>.
\<close>

partial_function (option) q_delete_dup_inner ::
  "heap \<Rightarrow> ptr \<Rightarrow> ptr \<Rightarrow> ptr \<Rightarrow> ptr \<Rightarrow> (heap \<times> ptr \<times> ptr) option" where
  "q_delete_dup_inner h head start endp prev =
     (if endp \<noteq> head \<and> strcmp (str h (val h start)) (str h (val h endp)) = 0
      then let nextp = nxt h endp;
               h1 = list_del h endp;
               h2 = q_release_element h1 endp
           in q_delete_dup_inner h2 head start nextp start
      else Some (h, endp, prev))"

partial_function (option) q_delete_dup_outer ::
  "heap \<Rightarrow> ptr \<Rightarrow> ptr \<Rightarrow> ptr \<Rightarrow> ptr \<Rightarrow> heap option" where
  "q_delete_dup_outer h head start endp prev =
     (if endp \<noteq> head
      then do {
        (h1, endp1, prev1) \<leftarrow> q_delete_dup_inner h head start (nxt h start) prev;
        let (h2, prev2) =
          (if prev1 \<noteq> NULL then (q_release_element (list_del h1 prev1) prev1, NULL)
           else (h1, prev1));
        q_delete_dup_outer h2 head endp1 endp1 prev2
      }
      else Some h)"

definition q_delete_dup :: "heap \<Rightarrow> ptr \<Rightarrow> (heap \<times> bool) option" where
  "q_delete_dup h head =
     (if head = NULL then Some (h, False)
      else if list_empty h head then Some (h, True)
      else do {
        h1 \<leftarrow> q_delete_dup_outer h head (nxt h head) NULL NULL;
        Some (h1, True)
      })"

subsection \<open>Swapping pairs, reversing\<close>

partial_function (option) q_swap_loop :: "heap \<Rightarrow> ptr \<Rightarrow> ptr \<Rightarrow> heap option" where
  "q_swap_loop h head n =
     (if n \<noteq> head \<and> nxt h n \<noteq> head
      then let nextp = nxt h n;
               h1 = list_del h n;
               h2 = list_add h1 n nextp
           in q_swap_loop h2 head (nxt h2 n)
      else Some h)"

definition q_swap :: "heap \<Rightarrow> ptr \<Rightarrow> heap option" where
  "q_swap h head = (if head = NULL then Some h else q_swap_loop h head (nxt h head))"

partial_function (option) q_reverse_loop ::
  "heap \<Rightarrow> ptr \<Rightarrow> ptr \<Rightarrow> ptr \<Rightarrow> ptr \<Rightarrow> heap option" where
  "q_reverse_loop h head prev cur nextp =
     (if nextp \<noteq> head
      then let nextp1 = nxt h cur;
               h1 = store_next h cur prev;
               h2 = store_prev h1 cur nextp1
           in q_reverse_loop h2 head cur nextp1 nextp1
      else Some h)"

definition q_reverse :: "heap \<Rightarrow> ptr \<Rightarrow> heap option" where
  "q_reverse h head =
     (if head = NULL \<or> list_empty h head then Some h
      else q_reverse_loop h head (prv h head) head NULL)"

subsection \<open>Merge sort\<close>

text \<open>
  \<^verbatim>\<open>merge_two_lists\<close> works through pointers to pointers: \<^verbatim>\<open>ptr\<close> is the address
  of the local \<^verbatim>\<open>head\<close> or of the \<^verbatim>\<open>next\<close> field of a node, \<^verbatim>\<open>node\<close> is the
  address of the local \<^verbatim>\<open>l1\<close> or \<^verbatim>\<open>l2\<close>. The state of the loop is the heap with the
  three locals.
\<close>

datatype lvalue = Var_head | Var_l1 | Var_l2 | Field_next ptr

type_synonym mstate = "heap \<times> ptr \<times> ptr \<times> ptr"

fun deref :: "mstate \<Rightarrow> lvalue \<Rightarrow> ptr" where
  "deref (h, l1, l2, head) Var_head = head"
| "deref (h, l1, l2, head) Var_l1 = l1"
| "deref (h, l1, l2, head) Var_l2 = l2"
| "deref (h, l1, l2, head) (Field_next p) = nxt h p"

fun assign :: "mstate \<Rightarrow> lvalue \<Rightarrow> ptr \<Rightarrow> mstate" where
  "assign (h, l1, l2, head) Var_head v = (h, l1, l2, v)"
| "assign (h, l1, l2, head) Var_l1 v = (h, v, l2, head)"
| "assign (h, l1, l2, head) Var_l2 v = (h, l1, v, head)"
| "assign (h, l1, l2, head) (Field_next p) v = (store_next h p v, l1, l2, head)"

partial_function (option) merge_two_lists_loop :: "mstate \<Rightarrow> lvalue \<Rightarrow> (mstate \<times> lvalue) option" where
  "merge_two_lists_loop s ptr =
     (case s of (h, l1, l2, head) \<Rightarrow>
        if l1 \<noteq> NULL \<and> l2 \<noteq> NULL
        then let node = (if strcmp (str h (val h l1)) (str h (val h l2)) \<le> 0
                         then Var_l1 else Var_l2);
                 s1 = assign s ptr (deref s node);
                 ptr1 = Field_next (deref s1 ptr);
                 s2 = assign s1 node (deref s1 (Field_next (deref s1 node)))
             in merge_two_lists_loop s2 ptr1
        else Some (s, ptr))"

definition merge_two_lists :: "heap \<Rightarrow> ptr \<Rightarrow> ptr \<Rightarrow> (heap \<times> ptr) option" where
  "merge_two_lists h l1 l2 = do {
     ((h1, l1', l2', head), ptr) \<leftarrow> merge_two_lists_loop (h, l1, l2, NULL) Var_head;
     let (h2, _, _, head') = assign (h1, l1', l2', head) ptr (l1' OR l2');
     Some (h2, head')
   }"

partial_function (option) merge_sort_loop :: "heap \<Rightarrow> ptr \<Rightarrow> ptr \<Rightarrow> ptr option" where
  "merge_sort_loop h fast slow =
     (if fast \<noteq> NULL \<and> nxt h fast \<noteq> NULL
      then merge_sort_loop h (nxt h (nxt h fast)) (nxt h slow)
      else Some slow)"

text \<open>
  C leaves the order in which the two arguments of the call of \<^verbatim>\<open>merge_two_lists\<close>
  are evaluated to the compiler: \<open>left_first\<close> chooses it.
\<close>

partial_function (option) merge_sort :: "bool \<Rightarrow> heap \<Rightarrow> ptr \<Rightarrow> (heap \<times> ptr) option" where
  "merge_sort left_first h head =
     (if head = NULL \<or> nxt h head = NULL then Some (h, head)
      else do {
        slow \<leftarrow> merge_sort_loop h (nxt h head) head;
        let fast = nxt h slow;
        let h1 = store_next h slow NULL;
        if left_first
        then do {
          (h2, a) \<leftarrow> merge_sort left_first h1 head;
          (h3, b) \<leftarrow> merge_sort left_first h2 fast;
          merge_two_lists h3 a b
        }
        else do {
          (h2, b) \<leftarrow> merge_sort left_first h1 fast;
          (h3, a) \<leftarrow> merge_sort left_first h2 head;
          merge_two_lists h3 a b
        }
      })"

partial_function (option) q_sort_loop :: "heap \<Rightarrow> ptr \<Rightarrow> (heap \<times> ptr) option" where
  "q_sort_loop h n =
     (if nxt h n \<noteq> NULL
      then q_sort_loop (store_prev h (nxt h n) n) (nxt h n)
      else Some (h, n))"

definition q_sort :: "bool \<Rightarrow> heap \<Rightarrow> ptr \<Rightarrow> heap option" where
  "q_sort left_first h head = do {
     sz \<leftarrow> q_size h head;
     if sint sz \<le> 1 then Some h
     else do {
       let list = nxt h head;
       let h1 = store_next h (prv h head) NULL;
       (h2, list1) \<leftarrow> merge_sort left_first h1 list;
       let h3 = store_next h2 head list1;
       (h4, n) \<leftarrow> q_sort_loop h3 head;
       let h5 = store_prev h4 head n;
       Some (store_next h5 n head)
     }
   }"

section \<open>Specification\<close>

subsection \<open>Queues as rings\<close>

text \<open>
  \<open>path f x ps y\<close>: starting at \<open>x\<close> and following the link \<open>f\<close> visits the nodes
  \<open>ps\<close> in this order and then arrives at \<open>y\<close>.
\<close>

fun path :: "(ptr \<Rightarrow> ptr) \<Rightarrow> ptr \<Rightarrow> ptr list \<Rightarrow> ptr \<Rightarrow> bool" where
  "path f x [] y = (f x = y)"
| "path f x (p # ps) y = (f x = p \<and> path f p ps y)"

text \<open>
  \<open>ring h head ps\<close>: the sentinel \<open>head\<close> with the elements \<open>ps\<close>, from first to last,
  is a well-formed queue. Following \<^verbatim>\<open>next\<close> from the sentinel visits every element
  once and returns to the sentinel, following \<^verbatim>\<open>prev\<close> does the same in reverse
  order.
\<close>

definition ring :: "heap \<Rightarrow> ptr \<Rightarrow> ptr list \<Rightarrow> bool" where
  "ring h head ps =
     (head \<noteq> NULL \<and> NULL \<notin> set ps \<and> distinct (head # ps) \<and>
      path (nxt h) head ps head \<and> path (prv h) head (rev ps) head)"

text \<open>
  \<open>dseg h p xs q\<close>: a piece of a ring, the nodes \<open>xs\<close> linked in both directions
  between \<open>p\<close> and \<open>q\<close>. \<open>chain f p ps\<close>: the null-terminated singly-linked list that
  starts at \<open>p\<close>, the form the queue has while it is being sorted.
\<close>

definition dseg :: "heap \<Rightarrow> ptr \<Rightarrow> ptr list \<Rightarrow> ptr \<Rightarrow> bool" where
  "dseg h p xs q = (path (nxt h) p xs q \<and> path (prv h) q (rev xs) p)"

fun chain :: "(ptr \<Rightarrow> ptr) \<Rightarrow> ptr \<Rightarrow> ptr list \<Rightarrow> bool" where
  "chain f p [] = (p = NULL)"
| "chain f p (q # qs) = (p = q \<and> q \<noteq> NULL \<and> chain f (f q) qs)"

text \<open>The string an element holds, and the blocks a set of elements owns.\<close>

definition payload :: "heap \<Rightarrow> ptr \<Rightarrow> string" where
  "payload h p = str h (val h p)"

definition blocks_of :: "heap \<Rightarrow> ptr set \<Rightarrow> ptr set" where
  "blocks_of h S = (S \<union> val h ` S) - {NULL}"

subsection \<open>What an operation leaves alone\<close>

text \<open>
  \<open>unchanged\<close>: links, strings and allocation are the same, and so is the
  \<^verbatim>\<open>value\<close> field of every block in use. \<open>same_payloads\<close>: nothing was allocated,
  released or written outside the links. \<open>links_kept\<close> and \<open>next_kept\<close>: the links
  outside the given nodes are the same.
\<close>

definition unchanged :: "heap \<Rightarrow> heap \<Rightarrow> bool" where
  "unchanged h h' =
     (nxt h' = nxt h \<and> prv h' = prv h \<and> str h' = str h \<and> allocd h' = allocd h \<and>
      (\<forall>p \<in> allocd h. val h' p = val h p))"

definition same_payloads :: "heap \<Rightarrow> heap \<Rightarrow> bool" where
  "same_payloads h h' = (val h' = val h \<and> str h' = str h \<and> allocd h' = allocd h)"

definition links_kept :: "heap \<Rightarrow> heap \<Rightarrow> ptr \<Rightarrow> ptr list \<Rightarrow> ptr \<Rightarrow> bool" where
  "links_kept h h' p xs q =
     ((\<forall>y. y \<notin> set xs \<and> y \<noteq> p \<longrightarrow> nxt h' y = nxt h y) \<and>
      (\<forall>y. y \<notin> set xs \<and> y \<noteq> q \<longrightarrow> prv h' y = prv h y) \<and>
      val h' = val h \<and> str h' = str h)"

definition next_kept :: "heap \<Rightarrow> heap \<Rightarrow> ptr set \<Rightarrow> bool" where
  "next_kept h h' S =
     ((\<forall>q. q \<notin> S \<longrightarrow> nxt h' q = nxt h q) \<and>
      prv h' = prv h \<and> val h' = val h \<and> str h' = str h \<and> allocd h' = allocd h)"

subsection \<open>The operations on lists\<close>

text \<open>
  What each operation does to the list of elements: deleting the element at an index,
  swapping pairs, deleting the runs of equal keys, merge sort with the split and the merge
  rule of the code. \<open>swap_links\<close> is the heap after a reversal: on the nodes of the
  ring the two links have changed places.
\<close>

definition delete_nth :: "nat \<Rightarrow> 'a list \<Rightarrow> 'a list" where
  "delete_nth i xs = take i xs @ drop (Suc i) xs"

fun swap_pairs :: "'a list \<Rightarrow> 'a list" where
  "swap_pairs [] = []"
| "swap_pairs [x] = [x]"
| "swap_pairs (x # y # zs) = y # x # swap_pairs zs"

definition swap_links :: "heap \<Rightarrow> ptr set \<Rightarrow> heap" where
  "swap_links h S =
     h\<lparr>nxt := (\<lambda>x. if x \<in> S then prv h x else nxt h x),
       prv := (\<lambda>x. if x \<in> S then nxt h x else prv h x)\<rparr>"

function drop_runs :: "('a \<Rightarrow> 'k) \<Rightarrow> 'a list \<Rightarrow> 'a list" where
  "drop_runs key [] = []"
| "drop_runs key (x # ys) =
     (if takeWhile (\<lambda>y. key y = key x) ys = []
      then x # drop_runs key (dropWhile (\<lambda>y. key y = key x) ys)
      else drop_runs key (dropWhile (\<lambda>y. key y = key x) ys))"
  by pat_completeness auto
termination
  by (relation "measure (\<lambda>(key, xs). length xs)") (auto simp: length_dropWhile_le le_imp_less_Suc)

definition ascending :: "heap \<Rightarrow> ptr list \<Rightarrow> bool" where
  "ascending h ps = sorted_wrt (\<lambda>a b. strcmp (payload h a) (payload h b) \<le> 0) ps"

definition occurs_once :: "('a \<Rightarrow> 'k) \<Rightarrow> 'a list \<Rightarrow> 'a \<Rightarrow> bool" where
  "occurs_once key xs x = (count_list (map key xs) (key x) = 1)"

abbreviation le_key :: "('a \<Rightarrow> string) \<Rightarrow> 'a \<Rightarrow> 'a \<Rightarrow> bool" where
  "le_key key a b \<equiv> strcmp (key a) (key b) \<le> 0"

fun merge_by :: "('a \<Rightarrow> string) \<Rightarrow> 'a list \<Rightarrow> 'a list \<Rightarrow> 'a list" where
  "merge_by key [] ys = ys"
| "merge_by key (x # xs) [] = x # xs"
| "merge_by key (x # xs) (y # ys) =
     (if strcmp (key x) (key y) \<le> 0 then x # merge_by key xs (y # ys)
      else y # merge_by key (x # xs) ys)"

function msort_by :: "('a \<Rightarrow> string) \<Rightarrow> 'a list \<Rightarrow> 'a list" where
  "msort_by key xs =
     (if length xs \<le> 1 then xs
      else merge_by key (msort_by key (take ((length xs + 1) div 2) xs))
                        (msort_by key (drop ((length xs + 1) div 2) xs)))"
  by pat_completeness auto
termination
  by (relation "measure (\<lambda>(key, xs). length xs)") auto

declare msort_by.simps [simp del]

text \<open>\<open>precedes x y xs\<close>: \<open>y\<close> occurs after the first occurrence of \<open>x\<close> in \<open>xs\<close>.\<close>

fun precedes :: "'a \<Rightarrow> 'a \<Rightarrow> 'a list \<Rightarrow> bool" where
  "precedes x y [] = False"
| "precedes x y (z # zs) = (if z = x then y \<in> set zs else precedes x y zs)"

subsection \<open>Auxiliary definitions for the loops\<close>

text \<open>
  \<open>copied s n\<close> is what \<^verbatim>\<open>strncpy\<close> writes. \<open>merge_from\<close> is the loop of
  \<^verbatim>\<open>merge_two_lists\<close> together with the final store through \<^verbatim>\<open>ptr\<close>; \<open>loc_ok\<close>
  says that \<^verbatim>\<open>ptr\<close> is the local \<^verbatim>\<open>head\<close> or the \<^verbatim>\<open>next\<close> field of a node outside
  the two chains, \<open>loc_set\<close> is the node whose field it is.
\<close>

definition copied :: "string \<Rightarrow> nat \<Rightarrow> char list" where
  "copied s n = take n s @ replicate (n - length s) NUL"

definition merge_from :: "mstate \<Rightarrow> lvalue \<Rightarrow> mstate option" where
  "merge_from s ptr = do {
     (s1, ptr1) \<leftarrow> merge_two_lists_loop s ptr;
     Some (assign s1 ptr1 (fst (snd s1) OR fst (snd (snd s1))))
   }"

fun loc_ok :: "lvalue \<Rightarrow> ptr set \<Rightarrow> bool" where
  "loc_ok Var_head S = True"
| "loc_ok (Field_next p) S = (p \<notin> S)"
| "loc_ok Var_l1 S = False"
| "loc_ok Var_l2 S = False"

fun loc_set :: "lvalue \<Rightarrow> ptr set" where
  "loc_set (Field_next p) = {p}"
| "loc_set Var_head = {}"
| "loc_set Var_l1 = {}"
| "loc_set Var_l2 = {}"

subsection \<open>Heaps for examples\<close>

text \<open>
  \<open>queue_of ss\<close>: the sentinel at address 1, the elements at the addresses
  \<open>2, 3, \<dots>\<close> in queue order with the payloads \<open>ss\<close>, their string buffers behind
  them. \<open>two_chains\<close>: the two null-terminated chains \<open>1, 2\<close> and \<open>3, 4\<close>, whose
  first elements both hold the payload \<open>a\<close>.
\<close>

definition queue_of :: "string list \<Rightarrow> heap" where
  "queue_of ss =
     (let n = length ss in
      \<lparr>nxt = (\<lambda>p. if 1 \<le> p \<and> p \<le> n then p + 1 else if p = n + 1 then 1 else NULL),
       prv = (\<lambda>p. if p = 1 then n + 1 else if 2 \<le> p \<and> p \<le> n + 1 then p - 1 else NULL),
       val = (\<lambda>p. if 2 \<le> p \<and> p \<le> n + 1 then p + n else NULL),
       str = (\<lambda>v. if n + 2 \<le> v \<and> v \<le> 2 * n + 1 then ss ! (v - n - 2) else []),
       allocd = {1..2 * n + 1}\<rparr>)"

definition two_chains :: heap where
  "two_chains =
     \<lparr>nxt = (\<lambda>p. if p = 1 then 2 else if p = 3 then 4 else NULL),
      prv = (\<lambda>p. NULL),
      val = (\<lambda>p. p + 10),
      str = (\<lambda>v. if v = 11 \<or> v = 13 then ''a'' else ''b''),
      allocd = {1..14}\<rparr>"

section \<open>Paths and rings\<close>

lemma path_append_Cons [simp]:
  "path f x (as @ b # bs) y = (path f x as b \<and> path f b bs y)"
  by (induction as arbitrary: x) auto

lemma path_upd [simp]:
  "a \<noteq> x \<Longrightarrow> a \<notin> set ps \<Longrightarrow> path (f(a := v)) x ps y = path f x ps y"
  by (induction ps arbitrary: x) auto

lemma path_nth:
  "path f x ps y \<Longrightarrow> i \<le> length ps \<Longrightarrow> f ((x # ps) ! i) = (ps @ [y]) ! i"
proof (induction ps arbitrary: x i)
  case Nil
  then show ?case by simp
next
  case (Cons p ps)
  then show ?case by (cases i) auto
qed

lemma path_cong:
  "(\<And>a. a \<in> set (x # ps) \<Longrightarrow> f a = g a) \<Longrightarrow> path f x ps y = path g x ps y"
  by (induction ps arbitrary: x) auto

lemma path_first: "path f x ps y \<Longrightarrow> f x = hd (ps @ [y])"
  by (cases ps) auto

lemma ring_free [simp]: "ring (free h p) head ps = ring h head ps"
  by (simp add: ring_def free_def)

lemma ring_release [simp]: "ring (q_release_element h e) head ps = ring h head ps"
  by (simp add: q_release_element_def)

lemma ring_nxt_nth:
  "ring h head ps \<Longrightarrow> i < length ps \<Longrightarrow> nxt h (ps ! i) = (ps @ [head]) ! Suc i"
  using path_nth [of "nxt h" head ps head "Suc i"] by (simp add: ring_def)

lemma ring_nxt_head: "ring h head ps \<Longrightarrow> nxt h head = (ps @ [head]) ! 0"
  using path_nth [of "nxt h" head ps head 0] by (simp add: ring_def)

lemma ring_nth_head:
  "ring h head ps \<Longrightarrow> i \<le> length ps \<Longrightarrow> ((ps @ [head]) ! i = head) = (i = length ps)"
  by (auto simp: ring_def nth_append)

lemma ring_empty: "ring h head ps \<Longrightarrow> list_empty h head = (ps = [])"
  by (cases ps) (auto simp: ring_def list_empty_def)

lemma ring_del:
  assumes "ring h head (as @ x # bs)"
  shows "ring (list_del h x) head (as @ bs)"
proof -
  from assms have n: "nxt h x = hd (bs @ [head])" and p: "prv h x = hd (rev as @ [head])"
    by (auto simp: ring_def dest: path_first)
  show ?thesis
  proof (cases as rule: rev_cases)
    case Nil
    then show ?thesis using assms n p
      by (cases bs) (auto simp: ring_def list_del_def store_next_def store_prev_def Let_def)
  next
    case (snoc as' a)
    then show ?thesis using assms n p
      by (cases bs) (auto simp: ring_def list_del_def store_next_def store_prev_def Let_def)
  qed
qed

section \<open>Deleting the middle element\<close>

text \<open>
  The fast cursor is at position \<open>2 * k\<close> when the slow one is at position \<open>k\<close>; the
  loop stops with the slow cursor at position \<open>length ps div 2\<close>.
\<close>

lemma q_delete_mid_loop_ring:
  assumes "ring h head ps" "ps \<noteq> []"
  shows "2 * k \<le> length ps \<Longrightarrow>
    q_delete_mid_loop h head ((ps @ [head]) ! (2 * k)) ((ps @ [head]) ! k) =
      Some (ps ! (length ps div 2))"
proof (induction "length ps - 2 * k" arbitrary: k rule: less_induct)
  case less
  let ?c = "ps @ [head]"
  consider "2 * k = length ps" | "Suc (2 * k) = length ps" | "Suc (Suc (2 * k)) \<le> length ps"
    using less.prems by linarith
  then show ?case
  proof cases
    case 1
    then have "?c ! (2 * k) = head" by (simp add: nth_append)
    moreover have "k < length ps" using 1 assms(2) by (cases ps) auto
    moreover have "k = length ps div 2" using 1 by simp
    ultimately show ?thesis
      by (subst q_delete_mid_loop.simps) (simp add: nth_append)
  next
    case 2
    then have a: "?c ! (2 * k) \<noteq> head"
      using ring_nth_head [OF assms(1), of "2 * k"] by simp
    have "nxt h (?c ! (2 * k)) = ?c ! Suc (2 * k)"
      using ring_nxt_nth [OF assms(1), of "2 * k"] 2 by (simp add: nth_append)
    then have b: "nxt h (?c ! (2 * k)) = head" using 2 by (simp add: nth_append)
    have "k = length ps div 2" "k < length ps" using 2 by auto
    then show ?thesis using a b
      by (subst q_delete_mid_loop.simps) (simp add: nth_append)
  next
    case 3
    then have a: "?c ! (2 * k) \<noteq> head"
      using ring_nth_head [OF assms(1), of "2 * k"] by simp
    have n1: "nxt h (?c ! (2 * k)) = ?c ! Suc (2 * k)"
      using ring_nxt_nth [OF assms(1), of "2 * k"] 3 by (simp add: nth_append)
    have b: "?c ! Suc (2 * k) \<noteq> head"
      using ring_nth_head [OF assms(1), of "Suc (2 * k)"] 3 by simp
    have n2: "nxt h (?c ! Suc (2 * k)) = ?c ! (2 * Suc k)"
      using ring_nxt_nth [OF assms(1), of "Suc (2 * k)"] 3 by (simp add: nth_append)
    have n3: "nxt h (?c ! k) = ?c ! Suc k"
      using ring_nxt_nth [OF assms(1), of k] 3 by (simp add: nth_append)
    have "q_delete_mid_loop h head (?c ! (2 * Suc k)) (?c ! Suc k) = Some (ps ! (length ps div 2))"
      using 3 by (intro less.hyps) auto
    then show ?thesis using a b n1 n2 n3
      by (subst q_delete_mid_loop.simps) simp
  qed
qed

lemma q_delete_mid_ring:
  assumes "ring h head ps" "ps \<noteq> []"
  shows "q_delete_mid h head =
           Some (q_release_element (list_del h (ps ! (length ps div 2))) (ps ! (length ps div 2)), True)"
    and "ring (q_release_element (list_del h (ps ! (length ps div 2))) (ps ! (length ps div 2))) head
           (delete_nth (length ps div 2) ps)"
proof -
  let ?m = "length ps div 2"
  have m: "?m < length ps" using assms(2) by (cases ps) auto
  have "nxt h head = (ps @ [head]) ! 0" using assms(1) by (rule ring_nxt_head)
  moreover have "q_delete_mid_loop h head ((ps @ [head]) ! (2 * 0)) ((ps @ [head]) ! 0) = Some (ps ! ?m)"
    using assms by (intro q_delete_mid_loop_ring) auto
  ultimately show "q_delete_mid h head = Some (q_release_element (list_del h (ps ! ?m)) (ps ! ?m), True)"
    using assms ring_empty [OF assms(1)] by (simp add: q_delete_mid_def ring_def)
  have "ps = take ?m ps @ ps ! ?m # drop (Suc ?m) ps"
    using m by (simp add: id_take_nth_drop)
  then have "ring h head (take ?m ps @ ps ! ?m # drop (Suc ?m) ps)" using assms(1) by simp
  then show "ring (q_release_element (list_del h (ps ! ?m)) (ps ! ?m)) head (delete_nth ?m ps)"
    unfolding delete_nth_def ring_release by (rule ring_del)
qed

lemma release_del_fields:
  "val (q_release_element (list_del h x) x) = val h"
  "str (q_release_element (list_del h x) x) = str h"
  "allocd (q_release_element (list_del h x) x) = allocd h - ({x, val h x} - {NULL})"
  by (auto simp: q_release_element_def list_del_def free_def store_next_def store_prev_def Let_def)

text \<open>
  C4. On a queue of \<open>n \<ge> 1\<close> elements \<^verbatim>\<open>q_delete_mid\<close> returns true and leaves the
  queue without the element at index \<open>n div 2\<close> (counted from 0 at the head), the other
  elements in their order and with their payloads; the deleted element and its string are
  released. On a null handle and on an empty queue it returns false and changes nothing.
\<close>

theorem q_delete_mid_removes_middle:
  "q_delete_mid h NULL = Some (h, False) \<and>
   (ring h head [] \<longrightarrow> q_delete_mid h head = Some (h, False)) \<and>
   (ring h head ps \<and> ps \<noteq> [] \<longrightarrow>
      (\<exists>h'. q_delete_mid h head = Some (h', True) \<and>
            ring h' head (delete_nth (length ps div 2) ps) \<and>
            val h' = val h \<and> str h' = str h \<and>
            allocd h' = allocd h - ({ps ! (length ps div 2), val h (ps ! (length ps div 2))} - {NULL})))"
proof (intro conjI impI)
  show "q_delete_mid h NULL = Some (h, False)"
    by (simp add: q_delete_mid_def)
  show "q_delete_mid h head = Some (h, False)" if "ring h head []"
    using ring_empty [OF that] by (simp add: q_delete_mid_def)
  show "\<exists>h'. q_delete_mid h head = Some (h', True) \<and>
            ring h' head (delete_nth (length ps div 2) ps) \<and>
            val h' = val h \<and> str h' = str h \<and>
            allocd h' = allocd h - ({ps ! (length ps div 2), val h (ps ! (length ps div 2))} - {NULL})"
    if "ring h head ps \<and> ps \<noteq> []"
    using q_delete_mid_ring [of h head ps] that by (simp add: release_del_fields)
qed

theorem q_delete_mid_removes_middle_witness:
  "ring (queue_of [''a'', ''b'', ''c'']) 1 [2, 3, 4] \<and>
   (\<exists>h'. q_delete_mid (queue_of [''a'', ''b'', ''c'']) 1 = Some (h', True) \<and> ring h' 1 [2, 4]) \<and>
   ring (queue_of []) 1 [] \<and> q_delete_mid (queue_of []) 1 = Some (queue_of [], False)"
proof -
  have r3: "ring (queue_of [''a'', ''b'', ''c'']) 1 [2, 3, 4]"
    by (simp add: ring_def queue_of_def)
  have r0: "ring (queue_of []) 1 []"
    by (simp add: ring_def queue_of_def)
  show ?thesis
    using r3 r0 q_delete_mid_removes_middle [of "queue_of [''a'', ''b'', ''c'']" 1 "[2, 3, 4]"]
      q_delete_mid_removes_middle [of "queue_of []" 1 "[]"]
    by (auto simp: delete_nth_def)
qed

text \<open>
  C5, as stated: on the queue \<open>[a, b, c, d, e, f]\<close> the element \<open>c\<close> at index 2 is
  deleted. The code deletes the element at index \<open>6 div 2 = 3\<close>, which is \<open>d\<close>.
\<close>

theorem q_delete_mid_six_counterexample:
  "q_delete_mid (queue_of [''a'', ''b'', ''c'', ''d'', ''e'', ''f'']) 1 =
     Some (q_release_element (list_del (queue_of [''a'', ''b'', ''c'', ''d'', ''e'', ''f'']) 5) 5, True) \<and>
   ring (q_release_element (list_del (queue_of [''a'', ''b'', ''c'', ''d'', ''e'', ''f'']) 5) 5) 1
     [2, 3, 4, 6, 7] \<and>
   map (payload (q_release_element (list_del (queue_of [''a'', ''b'', ''c'', ''d'', ''e'', ''f'']) 5) 5))
     [2, 3, 4, 6, 7] = [''a'', ''b'', ''c'', ''e'', ''f''] \<and>
   [''a'', ''b'', ''c'', ''e'', ''f''] \<noteq> [''a'', ''b'', ''d'', ''e'', ''f'']"
proof (intro conjI)
  show "q_delete_mid (queue_of [''a'', ''b'', ''c'', ''d'', ''e'', ''f'']) 1 =
     Some (q_release_element (list_del (queue_of [''a'', ''b'', ''c'', ''d'', ''e'', ''f'']) 5) 5, True)"
    by (simp add: q_delete_mid_def q_delete_mid_loop.simps list_empty_def queue_of_def
        eval_nat_numeral)
  show "ring (q_release_element (list_del (queue_of [''a'', ''b'', ''c'', ''d'', ''e'', ''f'']) 5) 5) 1
     [2, 3, 4, 6, 7]"
    by (simp add: ring_def queue_of_def list_del_def store_next_def store_prev_def
        q_release_element_def free_def)
  show "map (payload (q_release_element (list_del (queue_of [''a'', ''b'', ''c'', ''d'', ''e'', ''f'']) 5) 5))
     [2, 3, 4, 6, 7] = [''a'', ''b'', ''c'', ''e'', ''f'']"
    by (simp add: payload_def queue_of_def release_del_fields)
  show "[''a'', ''b'', ''c'', ''e'', ''f''] \<noteq> [''a'', ''b'', ''d'', ''e'', ''f'']"
    by simp
qed

text \<open>
  C5, amended: on a queue of six elements \<open>[a, b, c, d, e, f]\<close> \<^verbatim>\<open>q_delete_mid\<close>
  deletes the fourth element \<open>d\<close> (index 3) and leaves \<open>[a, b, c, e, f]\<close>, payloads
  unchanged.
\<close>

theorem q_delete_mid_six:
  assumes "ring h head [a, b, c, d, e, f]"
  shows "\<exists>h'. q_delete_mid h head = Some (h', True) \<and> ring h' head [a, b, c, e, f] \<and>
           map (payload h') [a, b, c, e, f] = map (payload h) [a, b, c, e, f]"
  using q_delete_mid_ring [OF assms] by (simp add: delete_nth_def payload_def release_del_fields)

theorem q_delete_mid_six_witness:
  "ring (queue_of [''a'', ''b'', ''c'', ''d'', ''e'', ''f'']) 1 [2, 3, 4, 5, 6, 7] \<and>
   (\<exists>h'. q_delete_mid (queue_of [''a'', ''b'', ''c'', ''d'', ''e'', ''f'']) 1 = Some (h', True) \<and>
      ring h' 1 [2, 3, 4, 6, 7] \<and>
      map (payload h') [2, 3, 4, 6, 7] = [''a'', ''b'', ''c'', ''e'', ''f''])"
proof -
  have r: "ring (queue_of [''a'', ''b'', ''c'', ''d'', ''e'', ''f'']) 1 [2, 3, 4, 5, 6, 7]"
    by (simp add: ring_def queue_of_def)
  have p: "map (payload (queue_of [''a'', ''b'', ''c'', ''d'', ''e'', ''f''])) [2, 3, 4, 6, 7] =
      [''a'', ''b'', ''c'', ''e'', ''f'']"
    by (simp add: payload_def queue_of_def)
  show ?thesis using r q_delete_mid_six [OF r] p by simp
qed

section \<open>Copying into the output buffer\<close>

lemma unat_zero_minus_one: "unat (0 - 1 :: 'a::len word) = 2 ^ LENGTH('a) - 1"
  by (simp add: unsigned_minus_1_eq_mask mask_eq_exp_minus_1)

lemma copy_out_zero:
  "length buf = unat (0 :: 'a::len word) \<Longrightarrow> copy_out buf s (0 :: 'a word) = Inl OutOfBounds"
  using unat_zero_minus_one [where 'a='a] by (simp add: copy_out_def strncpy_def store_byte_def)

lemma copy_out_pos:
  fixes bufsize :: "'a::len word"
  assumes "bufsize \<noteq> 0" "unat bufsize \<le> length buf"
  shows "copy_out buf s bufsize = Inr (copied s (unat bufsize - 1) @ NUL # drop (unat bufsize) buf)"
proof -
  let ?n = "unat bufsize - 1"
  have u: "unat (bufsize - 1) = ?n" using assms(1) by (simp add: unat_minus_one)
  have pos: "0 < unat bufsize" using assms(1) by (simp add: unat_gt_0)
  have d: "drop ?n buf = buf ! ?n # drop (unat bufsize) buf"
    using pos assms(2) Cons_nth_drop_Suc [of ?n buf] by simp
  have l: "length (copied s ?n) = ?n"
    by (cases "length s \<le> ?n") (simp_all add: copied_def min_def)
  have 1: "strncpy buf s ?n = Inr (copied s ?n @ buf ! ?n # drop (unat bufsize) buf)"
    using pos assms(2) d by (simp add: strncpy_def copied_def)
  have 2: "store_byte (copied s ?n @ buf ! ?n # drop (unat bufsize) buf) ?n NUL =
      Inr (copied s ?n @ NUL # drop (unat bufsize) buf)"
    using list_update_length [of "copied s ?n" "buf ! ?n" "drop (unat bufsize) buf" NUL] l
    by (simp add: store_byte_def del: list_update_length)
  show ?thesis unfolding copy_out_def u 1 using 2 by simp
qed

lemma copied_terminator:
  "(copied s n @ NUL # rest) ! min (length s) n = NUL"
  by (cases "length s < n") (simp_all add: copied_def nth_append min_def)

section \<open>Insertion\<close>

lemma ring_add:
  assumes "ring h head ps" "e \<notin> set (head # ps)" "e \<noteq> NULL"
  shows "ring (list_add h e head) head (e # ps)"
proof (cases ps)
  case Nil
  then show ?thesis using assms
    by (auto simp: ring_def list_add_def store_next_def store_prev_def Let_def)
next
  case (Cons p ps')
  then show ?thesis using assms
    by (auto simp: ring_def list_add_def store_next_def store_prev_def Let_def)
qed

lemma ring_add_tail:
  assumes "ring h head ps" "e \<notin> set (head # ps)" "e \<noteq> NULL"
  shows "ring (list_add_tail h e head) head (ps @ [e])"
proof (cases ps rule: rev_cases)
  case Nil
  then show ?thesis using assms
    by (auto simp: ring_def list_add_tail_def store_next_def store_prev_def Let_def)
next
  case (snoc ps' p)
  then show ?thesis using assms
    by (auto simp: ring_def list_add_tail_def store_next_def store_prev_def Let_def)
qed

lemma q_insert_head_result:
  "snd (q_insert_head h head s r1 r2) = (head \<noteq> NULL \<and> r1 \<noteq> NULL \<and> r2 \<noteq> NULL)"
  by (simp add: q_insert_head_def malloc_def strdup_def store_value_def Let_def)

lemma q_insert_tail_result:
  "snd (q_insert_tail h head s r1 r2) = (head \<noteq> NULL \<and> r1 \<noteq> NULL \<and> r2 \<noteq> NULL)"
  by (simp add: q_insert_tail_def malloc_def strdup_def store_value_def Let_def)

lemma q_insert_head_fail:
  assumes "r1 = NULL \<or> r1 \<notin> allocd h" "head = NULL \<or> r1 = NULL \<or> r2 = NULL"
  shows "unchanged h (fst (q_insert_head h head s r1 r2))"
  using assms
  by (auto simp: q_insert_head_def malloc_def strdup_def store_value_def Let_def unchanged_def
      q_release_element_def free_def)

lemma q_insert_tail_fail:
  assumes "r1 = NULL \<or> r1 \<notin> allocd h" "head = NULL \<or> r1 = NULL \<or> r2 = NULL"
  shows "unchanged h (fst (q_insert_tail h head s r1 r2))"
  using assms
  by (auto simp: q_insert_tail_def malloc_def strdup_def store_value_def Let_def unchanged_def
      q_release_element_def free_def)

lemma unchanged_ring: "unchanged h h' \<Longrightarrow> ring h' head ps = ring h head ps"
  by (simp add: unchanged_def ring_def)

lemma list_add_fields:
  "val (list_add h e head) = val h" "str (list_add h e head) = str h"
  "allocd (list_add h e head) = allocd h"
  "val (list_add_tail h e head) = val h" "str (list_add_tail h e head) = str h"
  "allocd (list_add_tail h e head) = allocd h"
  by (simp_all add: list_add_def list_add_tail_def store_next_def store_prev_def Let_def)

lemma ring_alloc_fields [simp]:
  "ring (h\<lparr>allocd := A\<rparr>) head ps = ring h head ps"
  "ring (h\<lparr>str := S\<rparr>) head ps = ring h head ps"
  "ring (h\<lparr>val := V\<rparr>) head ps = ring h head ps"
  by (simp_all add: ring_def)

lemma q_insert_head_ok:
  assumes "ring h head ps" "set (head # ps) \<subseteq> allocd h"
    "r1 \<noteq> NULL" "r1 \<notin> allocd h" "r2 \<noteq> NULL"
  shows "\<exists>h'. q_insert_head h head s r1 r2 = (h', True) \<and> ring h' head (r1 # ps) \<and>
           val h' = (val h)(r1 := r2) \<and> str h' = (str h)(r2 := s) \<and>
           allocd h' = insert r1 (insert r2 (allocd h))"
proof -
  have e: "r1 \<notin> set (head # ps)" using assms(2,4) by auto
  have hd: "head \<noteq> NULL" using assms(1) by (simp add: ring_def)
  let ?h3 = "h\<lparr>str := (str h)(r2 := s), allocd := insert r2 (insert r1 (allocd h)), val := (val h)(r1 := r2)\<rparr>"
  have "ring ?h3 head ps" using assms(1) by simp
  then have "ring (list_add ?h3 r1 head) head (r1 # ps)"
    using e assms(3) by (rule ring_add)
  moreover have "q_insert_head h head s r1 r2 = (list_add ?h3 r1 head, True)"
    using hd assms(3,5)
    by (simp add: q_insert_head_def malloc_def strdup_def store_value_def)
  ultimately show ?thesis by (auto simp: list_add_fields)
qed

lemma q_insert_tail_ok:
  assumes "ring h head ps" "set (head # ps) \<subseteq> allocd h"
    "r1 \<noteq> NULL" "r1 \<notin> allocd h" "r2 \<noteq> NULL"
  shows "\<exists>h'. q_insert_tail h head s r1 r2 = (h', True) \<and> ring h' head (ps @ [r1]) \<and>
           val h' = (val h)(r1 := r2) \<and> str h' = (str h)(r2 := s) \<and>
           allocd h' = insert r1 (insert r2 (allocd h))"
proof -
  have e: "r1 \<notin> set (head # ps)" using assms(2,4) by auto
  have hd: "head \<noteq> NULL" using assms(1) by (simp add: ring_def)
  let ?h3 = "h\<lparr>str := (str h)(r2 := s), allocd := insert r2 (insert r1 (allocd h)), val := (val h)(r1 := r2)\<rparr>"
  have "ring ?h3 head ps" using assms(1) by simp
  then have "ring (list_add_tail ?h3 r1 head) head (ps @ [r1])"
    using e assms(3) by (rule ring_add_tail)
  moreover have "q_insert_tail h head s r1 r2 = (list_add_tail ?h3 r1 head, True)"
    using hd assms(3,5)
    by (simp add: q_insert_tail_def malloc_def strdup_def store_value_def)
  ultimately show ?thesis by (auto simp: list_add_fields)
qed

section \<open>Swapping pairs\<close>

lemma set_swap_pairs [simp]: "set (swap_pairs xs) = set xs"
  by (induction xs rule: swap_pairs.induct) auto

lemma ring_dseg:
  "ring h head ps = (head \<noteq> NULL \<and> NULL \<notin> set ps \<and> distinct (head # ps) \<and> dseg h head ps head)"
  by (simp add: ring_def dseg_def)

lemma swap_step:
  assumes "dseg h p (a # b # rest) head" "distinct (a # b # rest)"
    "p \<notin> set (a # b # rest)" "head \<notin> set (a # b # rest)"
  defines "h2 \<equiv> list_add (list_del h a) a b"
  shows "nxt h a = b" "nxt h b \<noteq> head \<or> rest = []" "nxt h2 a = hd (rest @ [head])"
    "dseg h2 a rest head" "nxt h2 p = b" "nxt h2 b = a" "prv h2 a = b" "prv h2 b = p"
    "\<forall>x. x \<notin> set (a # b # rest) \<and> x \<noteq> p \<longrightarrow> nxt h2 x = nxt h x"
    "\<forall>x. x \<notin> set (a # b # rest) \<and> x \<noteq> head \<longrightarrow> prv h2 x = prv h x"
    "same_payloads h h2"
proof -
  show "nxt h a = b" using assms(1) by (simp add: dseg_def)
  show "nxt h b \<noteq> head \<or> rest = []" using assms(1,4) by (cases rest) (auto simp: dseg_def)
  have pa: "prv h a = p" using assms(1) by (simp add: dseg_def)
  show "same_payloads h h2"
    by (simp add: h2_def same_payloads_def list_add_def list_del_def store_next_def store_prev_def Let_def)
  show "nxt h2 a = hd (rest @ [head])" "dseg h2 a rest head" "nxt h2 p = b" "nxt h2 b = a"
    "prv h2 a = b" "prv h2 b = p"
    "\<forall>x. x \<notin> set (a # b # rest) \<and> x \<noteq> p \<longrightarrow> nxt h2 x = nxt h x"
    "\<forall>x. x \<notin> set (a # b # rest) \<and> x \<noteq> head \<longrightarrow> prv h2 x = prv h x"
    using assms(1-4) pa
    by (cases rest; auto simp: h2_def dseg_def list_add_def list_del_def store_next_def store_prev_def Let_def)+
qed

lemma q_swap_loop_dseg:
  assumes "dseg h p xs head" "distinct xs" "p \<notin> set xs" "head \<notin> set xs"
  shows "\<exists>h'. q_swap_loop h head (hd (xs @ [head])) = Some h' \<and>
           dseg h' p (swap_pairs xs) head \<and>
           (\<forall>x. x \<notin> set xs \<and> x \<noteq> p \<longrightarrow> nxt h' x = nxt h x) \<and>
           (\<forall>x. x \<notin> set xs \<and> x \<noteq> head \<longrightarrow> prv h' x = prv h x) \<and>
           same_payloads h h'"
  using assms
proof (induction xs arbitrary: h p rule: swap_pairs.induct)
  case (3 a b rest)
  define h2 where "h2 = list_add (list_del h a) a b"
  note st = swap_step [OF 3(2-5), folded h2_def]
  have d: "distinct rest" "a \<notin> set rest" "head \<notin> set rest" using 3(3,5) by auto
  from "3.IH" [OF st(4) d] obtain h' where h':
    "q_swap_loop h2 head (hd (rest @ [head])) = Some h'"
    "dseg h' a (swap_pairs rest) head"
    "\<forall>x. x \<notin> set rest \<and> x \<noteq> a \<longrightarrow> nxt h' x = nxt h2 x"
    "\<forall>x. x \<notin> set rest \<and> x \<noteq> head \<longrightarrow> prv h' x = prv h2 x"
    "same_payloads h2 h'"
    by blast
  have ab: "a \<noteq> head" "b \<noteq> head" "a \<noteq> b" "b \<notin> set rest" "p \<noteq> a" "p \<noteq> b" "p \<notin> set rest"
    using 3(3-5) by auto
  have run: "q_swap_loop h head a = Some h'"
    using ab st(1,3) h'(1)
    by (subst q_swap_loop.simps) (simp add: h2_def Let_def)
  have n: "path (nxt h') p (b # a # swap_pairs rest) head"
    using h'(2,3) st(5,6) ab by (simp add: dseg_def)
  have pv: "path (prv h') head (rev (swap_pairs rest) @ [a, b]) p"
    using h'(2,4) st(7,8) ab d by (simp add: dseg_def)
  have f1: "\<forall>x. x \<notin> set (a # b # rest) \<and> x \<noteq> p \<longrightarrow> nxt h' x = nxt h x"
    using h'(3) st(9) by auto
  have f2: "\<forall>x. x \<notin> set (a # b # rest) \<and> x \<noteq> head \<longrightarrow> prv h' x = prv h x"
    using h'(4) st(10) by auto
  have sp: "same_payloads h h'"
    using h'(5) st(11) by (simp add: same_payloads_def)
  show ?case
    using run n pv f1 f2 sp by (simp add: dseg_def)
next
  case 1
  then show ?case
    by (subst q_swap_loop.simps) (simp add: dseg_def same_payloads_def)
next
  case (2 v)
  then show ?case
    by (subst q_swap_loop.simps) (simp add: dseg_def same_payloads_def)
qed

lemma distinct_swap_pairs [simp]: "distinct (swap_pairs xs) = distinct xs"
  by (induction xs rule: swap_pairs.induct) auto

lemma length_swap_pairs [simp]: "length (swap_pairs xs) = length xs"
  by (induction xs rule: swap_pairs.induct) auto

lemma swap_pairs_nth:
  "i < length xs \<Longrightarrow>
     swap_pairs xs ! i =
       (if even i then (if Suc i < length xs then xs ! Suc i else xs ! i) else xs ! (i - 1))"
proof (induction xs arbitrary: i rule: swap_pairs.induct)
  case (3 x y zs)
  show ?case
  proof (cases i)
    case 0
    then show ?thesis by simp
  next
    case (Suc j)
    show ?thesis
    proof (cases j)
      case 0
      then show ?thesis using Suc by simp
    next
      case (Suc k)
      then have "k < length zs" using 3(2) \<open>i = Suc j\<close> by simp
      from "3.IH" [OF this] show ?thesis using \<open>i = Suc j\<close> Suc
        by (auto simp: nth_Cons' dest: odd_pos)
    qed
  qed
qed simp_all

lemma q_swap_ring:
  assumes "ring h head ps"
  shows "\<exists>h'. q_swap h head = Some h' \<and> ring h' head (swap_pairs ps) \<and> same_payloads h h'"
proof -
  have d: "dseg h head ps head" "distinct ps" "head \<notin> set ps" "head \<noteq> NULL"
    using assms by (auto simp: ring_dseg)
  have n: "nxt h head = hd (ps @ [head])"
    using d(1) by (auto simp: dseg_def dest: path_first)
  from q_swap_loop_dseg [OF d(1,2,3,3)] obtain h' where
    "q_swap_loop h head (hd (ps @ [head])) = Some h'" "dseg h' head (swap_pairs ps) head"
    "same_payloads h h'"
    by blast
  then show ?thesis using assms d(4) n by (auto simp: q_swap_def ring_dseg)
qed

lemma q_swap_short:
  assumes "ring h head ps" "length ps \<le> 1"
  shows "q_swap h head = Some h"
proof -
  have "nxt h head = head \<or> nxt h (nxt h head) = head"
    using assms by (cases ps) (auto simp: ring_def)
  moreover have "head \<noteq> NULL" using assms by (simp add: ring_def)
  ultimately show ?thesis
    by (subst q_swap_def, subst q_swap_loop.simps) auto
qed

section \<open>Reversing\<close>

lemma swap_links_empty [simp]: "swap_links h {} = h"
  by (simp add: swap_links_def)

lemma swap_links_twice: "swap_links (swap_links h S) S = h"
  by (simp add: swap_links_def fun_eq_iff)

lemma ring_adjacent:
  assumes "ring h head ps" "head # ps = done @ c # cs"
  shows "nxt h c = hd (cs @ [head])" "prv h (hd (cs @ [head])) = c"
proof -
  have p: "path (nxt h) head ps head" "path (prv h) head (rev ps) head"
    using assms(1) by (simp_all add: ring_def)
  show "nxt h c = hd (cs @ [head])"
  proof (cases "done")
    case Nil
    then show ?thesis using assms(2) p(1) by (auto dest: path_first)
  next
    case (Cons d ds)
    then have "ps = ds @ c # cs" using assms(2) by simp
    then show ?thesis using p(1) by (auto dest: path_first)
  qed
  show "prv h (hd (cs @ [head])) = c"
  proof (cases "done")
    case Nil
    then show ?thesis using assms(2) p(2) by (cases cs) auto
  next
    case (Cons d ds)
    then have "ps = ds @ c # cs" using assms(2) by simp
    then show ?thesis using p(2) by (cases cs) auto
  qed
qed

lemma swap_links_step:
  assumes "c \<notin> S"
  shows "store_prev (store_next (swap_links h S) c (prv h c)) c (nxt h c) = swap_links h (insert c S)"
  using assms by (simp add: swap_links_def store_next_def store_prev_def fun_eq_iff)

lemma q_reverse_loop_unfold:
  assumes "nextp \<noteq> head" "c \<notin> S"
  shows "q_reverse_loop (swap_links h S) head (prv h c) c nextp =
         q_reverse_loop (swap_links h (insert c S)) head c (nxt h c) (nxt h c)"
proof -
  have n: "nxt (swap_links h S) c = nxt h c" using assms(2) by (simp add: swap_links_def)
  show ?thesis
    using assms(1) by (subst q_reverse_loop.simps) (simp add: Let_def n swap_links_step [OF assms(2)])
qed

lemma q_reverse_loop_ring:
  assumes "ring h head ps"
  shows "head # ps = done @ c # cs \<Longrightarrow> nextp \<noteq> head \<Longrightarrow>
    q_reverse_loop (swap_links h (set done)) head (prv h c) c nextp =
      Some (swap_links h (set (head # ps)))"
proof (induction cs arbitrary: "done" c nextp)
  case Nil
  have "distinct (head # ps)" using assms by (simp add: ring_def)
  then have "distinct (done @ [c])" unfolding Nil(1) .
  then have c: "c \<notin> set done" by simp
  have n: "nxt h c = head" using ring_adjacent(1) [OF assms Nil(1)] by simp
  have s: "insert c (set done) = set (head # ps)" by (simp add: Nil(1))
  have "q_reverse_loop (swap_links h (set (head # ps))) head c head head =
      Some (swap_links h (set (head # ps)))"
    by (subst q_reverse_loop.simps) simp
  then show ?case
    unfolding q_reverse_loop_unfold [OF Nil(2) c] n s .
next
  case (Cons c' cs')
  have "distinct (head # ps)" using assms by (simp add: ring_def)
  then have dist: "distinct (done @ c # c' # cs')" unfolding Cons(2) .
  then have c: "c \<notin> set done" by simp
  have n: "nxt h c = c'" "prv h c' = c" using ring_adjacent [OF assms Cons(2)] by simp_all
  have c': "c' \<noteq> head"
  proof (cases "done")
    case Nil
    then show ?thesis using Cons(2) dist by auto
  next
    case (Cons d ds)
    then show ?thesis using \<open>head # ps = done @ c # c' # cs'\<close> dist by auto
  qed
  have "head # ps = (done @ [c]) @ c' # cs'" using Cons(2) by simp
  from Cons.IH [OF this c'] have
    "q_reverse_loop (swap_links h (insert c (set done))) head c c' c' =
       Some (swap_links h (set (head # ps)))"
    by (simp add: n)
  then show ?case
    unfolding q_reverse_loop_unfold [OF Cons(3) c] n .
qed

lemma ring_swap_links:
  assumes "ring h head ps"
  shows "ring (swap_links h (set (head # ps))) head (rev ps)"
proof -
  let ?h = "swap_links h (set (head # ps))"
  have "path (nxt ?h) head (rev ps) head = path (prv h) head (rev ps) head"
    by (rule path_cong) (auto simp: swap_links_def)
  moreover have "path (prv ?h) head ps head = path (nxt h) head ps head"
    by (rule path_cong) (auto simp: swap_links_def)
  ultimately show ?thesis using assms by (simp add: ring_def)
qed

lemma q_reverse_ring:
  assumes "ring h head ps"
  shows "q_reverse h head = Some (swap_links h (set (head # ps)))"
proof (cases ps)
  case Nil
  then have "nxt h head = head" "prv h head = head" using assms by (simp_all add: ring_def)
  then have "swap_links h (set (head # ps)) = h"
    by (simp add: swap_links_def Nil fun_eq_iff)
  then show ?thesis using \<open>nxt h head = head\<close> by (simp add: q_reverse_def list_empty_def)
next
  case (Cons p ps')
  then have ne: "\<not> list_empty h head" "head \<noteq> NULL"
    using ring_empty [OF assms] assms by (simp_all add: ring_def)
  have "q_reverse_loop (swap_links h (set [])) head (prv h head) head NULL =
      Some (swap_links h (set (head # ps)))"
    using ne(2) by (intro q_reverse_loop_ring [OF assms]) auto
  then show ?thesis using ne by (simp add: q_reverse_def)
qed

section \<open>Swapping pairs: the contract\<close>

text \<open>
  C7. On a queue with the elements \<open>ps\<close> \<^verbatim>\<open>q_swap\<close> returns with the queue
  \<open>swap_pairs ps\<close>: the elements at the positions \<open>2i\<close> and \<open>2i + 1\<close> change
  places, and the last element of a queue of odd length stays where it is. No block is
  allocated or released and no payload is touched. A null handle, an empty queue and a
  queue of one element are left as they are. In particular \<open>[a, b, c, d, e]\<close> becomes
  \<open>[b, a, d, c, e]\<close>.
\<close>

theorem q_swap_exchanges_pairs:
  "q_swap h NULL = Some h \<and>
   (ring h head ps \<longrightarrow>
      (\<exists>h'. q_swap h head = Some h' \<and> ring h' head (swap_pairs ps) \<and>
            val h' = val h \<and> str h' = str h \<and> allocd h' = allocd h)) \<and>
   (ring h head ps \<and> length ps \<le> 1 \<longrightarrow> q_swap h head = Some h) \<and>
   length (swap_pairs ps) = length ps \<and>
   (\<forall>i<length ps. swap_pairs ps ! i =
      (if even i then (if Suc i < length ps then ps ! Suc i else ps ! i) else ps ! (i - 1))) \<and>
   (ring h head [a, b, c, d, e] \<longrightarrow>
      (\<exists>h'. q_swap h head = Some h' \<and> ring h' head [b, a, d, c, e] \<and>
            map (payload h') [b, a, d, c, e] = map (payload h) [b, a, d, c, e]))"
proof (intro conjI impI allI)
  show "q_swap h NULL = Some h" by (simp add: q_swap_def)
  show "\<exists>h'. q_swap h head = Some h' \<and> ring h' head (swap_pairs ps) \<and>
            val h' = val h \<and> str h' = str h \<and> allocd h' = allocd h" if "ring h head ps"
    using q_swap_ring [OF that] by (auto simp: same_payloads_def)
  show "q_swap h head = Some h" if "ring h head ps \<and> length ps \<le> 1"
    using that q_swap_short by blast
  show "length (swap_pairs ps) = length ps" by simp
  show "swap_pairs ps ! i =
      (if even i then (if Suc i < length ps then ps ! Suc i else ps ! i) else ps ! (i - 1))"
    if "i < length ps" for i
    using that by (rule swap_pairs_nth)
  show "\<exists>h'. q_swap h head = Some h' \<and> ring h' head [b, a, d, c, e] \<and>
            map (payload h') [b, a, d, c, e] = map (payload h) [b, a, d, c, e]"
    if "ring h head [a, b, c, d, e]"
    using q_swap_ring [OF that] by (auto simp: same_payloads_def payload_def)
qed

theorem q_swap_exchanges_pairs_witness:
  "ring (queue_of [''1'', ''2'', ''3'', ''4'', ''5'']) 1 [2, 3, 4, 5, 6] \<and>
   map (payload (queue_of [''1'', ''2'', ''3'', ''4'', ''5''])) [2, 3, 4, 5, 6] =
     [''1'', ''2'', ''3'', ''4'', ''5''] \<and>
   (\<exists>h'. q_swap (queue_of [''1'', ''2'', ''3'', ''4'', ''5'']) 1 = Some h' \<and>
      ring h' 1 [3, 2, 5, 4, 6] \<and>
      map (payload h') [3, 2, 5, 4, 6] = [''2'', ''1'', ''4'', ''3'', ''5'']) \<and>
   ring (queue_of [''1'']) 1 [2] \<and> q_swap (queue_of [''1'']) 1 = Some (queue_of [''1''])"
proof -
  have r5: "ring (queue_of [''1'', ''2'', ''3'', ''4'', ''5'']) 1 [2, 3, 4, 5, 6]"
    by (simp add: ring_def queue_of_def)
  have p5: "map (payload (queue_of [''1'', ''2'', ''3'', ''4'', ''5''])) [2, 3, 4, 5, 6] =
     [''1'', ''2'', ''3'', ''4'', ''5'']"
    by (simp add: payload_def queue_of_def)
  have r1: "ring (queue_of [''1'']) 1 [2]"
    by (simp add: ring_def queue_of_def)
  show ?thesis
    using r5 p5 r1
      q_swap_exchanges_pairs [of "queue_of [''1'', ''2'', ''3'', ''4'', ''5'']" 1 "[2, 3, 4, 5, 6]" 2 3 4 5 6]
      q_swap_exchanges_pairs [of "queue_of [''1'']" 1 "[2]"]
    by auto
qed

section \<open>Reversing: the contract\<close>

text \<open>
  C8. \<^verbatim>\<open>q_reverse\<close> turns the queue with the elements \<open>ps\<close> into the queue with
  the elements \<open>rev ps\<close>, without allocating or releasing a block and without touching
  a payload; a null handle and an empty queue are left as they are; reversing the result
  again gives back the heap before the first call. In particular \<open>[a, b, c]\<close> becomes
  \<open>[c, b, a]\<close>.
\<close>

theorem q_reverse_reverses:
  "q_reverse h NULL = Some h \<and>
   (ring h head [] \<longrightarrow> q_reverse h head = Some h) \<and>
   (ring h head ps \<longrightarrow>
      (\<exists>h'. q_reverse h head = Some h' \<and> ring h' head (rev ps) \<and>
            val h' = val h \<and> str h' = str h \<and> allocd h' = allocd h \<and>
            q_reverse h' head = Some h)) \<and>
   (ring h head [a, b, c] \<longrightarrow>
      (\<exists>h'. q_reverse h head = Some h' \<and> ring h' head [c, b, a] \<and>
            map (payload h') [c, b, a] = map (payload h) [c, b, a]))"
proof (intro conjI impI)
  show "q_reverse h NULL = Some h" by (simp add: q_reverse_def)
  show "q_reverse h head = Some h" if "ring h head []"
    using ring_empty [OF that] by (simp add: q_reverse_def)
  show "\<exists>h'. q_reverse h head = Some h' \<and> ring h' head (rev ps) \<and>
            val h' = val h \<and> str h' = str h \<and> allocd h' = allocd h \<and>
            q_reverse h' head = Some h" if r: "ring h head ps"
  proof -
    let ?h = "swap_links h (set (head # ps))"
    have "q_reverse ?h head = Some (swap_links ?h (set (head # rev ps)))"
      using ring_swap_links [OF r] by (rule q_reverse_ring)
    then have "q_reverse ?h head = Some h" by (simp add: swap_links_twice)
    then show ?thesis
      using q_reverse_ring [OF r] ring_swap_links [OF r] by (simp add: swap_links_def)
  qed
  show "\<exists>h'. q_reverse h head = Some h' \<and> ring h' head [c, b, a] \<and>
            map (payload h') [c, b, a] = map (payload h) [c, b, a]" if r: "ring h head [a, b, c]"
    using q_reverse_ring [OF r] ring_swap_links [OF r] by (simp add: swap_links_def payload_def)
qed

theorem q_reverse_reverses_witness:
  "ring (queue_of [''1'', ''2'', ''3'']) 1 [2, 3, 4] \<and>
   map (payload (queue_of [''1'', ''2'', ''3''])) [2, 3, 4] = [''1'', ''2'', ''3''] \<and>
   (\<exists>h'. q_reverse (queue_of [''1'', ''2'', ''3'']) 1 = Some h' \<and> ring h' 1 [4, 3, 2] \<and>
      map (payload h') [4, 3, 2] = [''3'', ''2'', ''1''] \<and>
      q_reverse h' 1 = Some (queue_of [''1'', ''2'', ''3''])) \<and>
   ring (queue_of []) 1 [] \<and> q_reverse (queue_of []) 1 = Some (queue_of [])"
proof -
  have r3: "ring (queue_of [''1'', ''2'', ''3'']) 1 [2, 3, 4]"
    by (simp add: ring_def queue_of_def)
  have p3: "map (payload (queue_of [''1'', ''2'', ''3''])) [2, 3, 4] = [''1'', ''2'', ''3'']"
    by (simp add: payload_def queue_of_def)
  have r0: "ring (queue_of []) 1 []"
    by (simp add: ring_def queue_of_def)
  show ?thesis
    using r3 p3 r0
      q_reverse_reverses [of "queue_of [''1'', ''2'', ''3'']" 1 "[2, 3, 4]" 2 3 4]
      q_reverse_reverses [of "queue_of []" 1 "[]"]
    by auto
qed

section \<open>Insertion: the contract\<close>

text \<open>
  C9. The allocator answers \<open>r1\<close> to the \<^verbatim>\<open>malloc\<close> of the element and \<open>r2\<close> to the
  \<^verbatim>\<open>strdup\<close>, each the null pointer or a block that is not in use. Then
  \<^verbatim>\<open>q_insert_head\<close> and \<^verbatim>\<open>q_insert_tail\<close> return false exactly when the handle
  is null or one of the two answers is null. When they return false, links, strings and
  the set of blocks in use are as before, and so is the \<^verbatim>\<open>value\<close> field of every block in
  use (a block allocated for the element has been released again). When they return true on
  a queue \<open>ps\<close>, the queue is \<open>r1 # ps\<close> (resp. \<open>ps @ [r1]\<close>): the new element is the
  sentinel's successor (resp. predecessor), its \<^verbatim>\<open>value\<close> is the new buffer \<open>r2\<close>, which
  holds the bytes of \<open>s\<close>, and these two are all the new blocks.
\<close>

theorem q_insert_contract:
  assumes "r1 = NULL \<or> r1 \<notin> allocd h" "r2 = NULL \<or> (r2 \<notin> allocd h \<and> r2 \<noteq> r1)"
  shows
   "(snd (q_insert_head h head s r1 r2) = False \<longleftrightarrow> head = NULL \<or> r1 = NULL \<or> r2 = NULL) \<and>
    (snd (q_insert_tail h head s r1 r2) = False \<longleftrightarrow> head = NULL \<or> r1 = NULL \<or> r2 = NULL) \<and>
    (head = NULL \<or> r1 = NULL \<or> r2 = NULL \<longrightarrow>
       unchanged h (fst (q_insert_head h head s r1 r2)) \<and>
       unchanged h (fst (q_insert_tail h head s r1 r2)) \<and>
       (ring h head ps \<longrightarrow>
          ring (fst (q_insert_head h head s r1 r2)) head ps \<and>
          ring (fst (q_insert_tail h head s r1 r2)) head ps)) \<and>
    (ring h head ps \<and> set (head # ps) \<subseteq> allocd h \<and> r1 \<noteq> NULL \<and> r2 \<noteq> NULL \<longrightarrow>
       (\<exists>h'. q_insert_head h head s r1 r2 = (h', True) \<and> ring h' head (r1 # ps) \<and>
             nxt h' head = r1 \<and> prv h' r1 = head \<and> payload h' r1 = s \<and>
             val h' = (val h)(r1 := r2) \<and> str h' = (str h)(r2 := s) \<and>
             allocd h' = insert r1 (insert r2 (allocd h))) \<and>
       (\<exists>h'. q_insert_tail h head s r1 r2 = (h', True) \<and> ring h' head (ps @ [r1]) \<and>
             prv h' head = r1 \<and> nxt h' r1 = head \<and> payload h' r1 = s \<and>
             val h' = (val h)(r1 := r2) \<and> str h' = (str h)(r2 := s) \<and>
             allocd h' = insert r1 (insert r2 (allocd h))))"
proof (intro conjI impI)
  show "snd (q_insert_head h head s r1 r2) = False \<longleftrightarrow> head = NULL \<or> r1 = NULL \<or> r2 = NULL"
    by (simp add: q_insert_head_result)
  show "snd (q_insert_tail h head s r1 r2) = False \<longleftrightarrow> head = NULL \<or> r1 = NULL \<or> r2 = NULL"
    by (simp add: q_insert_tail_result)
next
  assume f: "head = NULL \<or> r1 = NULL \<or> r2 = NULL"
  show u1: "unchanged h (fst (q_insert_head h head s r1 r2))"
    using assms(1) f by (rule q_insert_head_fail)
  show u2: "unchanged h (fst (q_insert_tail h head s r1 r2))"
    using assms(1) f by (rule q_insert_tail_fail)
  show "ring (fst (q_insert_head h head s r1 r2)) head ps" if "ring h head ps"
    using that unchanged_ring [OF u1] by simp
  show "ring (fst (q_insert_tail h head s r1 r2)) head ps" if "ring h head ps"
    using that unchanged_ring [OF u2] by simp
next
  assume a: "ring h head ps \<and> set (head # ps) \<subseteq> allocd h \<and> r1 \<noteq> NULL \<and> r2 \<noteq> NULL"
  then have fresh: "r1 \<notin> allocd h" using assms(1) by simp
  from a fresh q_insert_head_ok [of h head ps r1 r2 s] obtain h' where h':
    "q_insert_head h head s r1 r2 = (h', True)" "ring h' head (r1 # ps)"
    "val h' = (val h)(r1 := r2)" "str h' = (str h)(r2 := s)"
    "allocd h' = insert r1 (insert r2 (allocd h))"
    by blast
  have "nxt h' head = r1" using h'(2) by (simp add: ring_def)
  moreover have "prv h' r1 = head" using h'(2) by (simp add: ring_def)
  moreover have "payload h' r1 = s" using h'(3,4) by (simp add: payload_def)
  ultimately show "\<exists>h'. q_insert_head h head s r1 r2 = (h', True) \<and> ring h' head (r1 # ps) \<and>
             nxt h' head = r1 \<and> prv h' r1 = head \<and> payload h' r1 = s \<and>
             val h' = (val h)(r1 := r2) \<and> str h' = (str h)(r2 := s) \<and>
             allocd h' = insert r1 (insert r2 (allocd h))"
    using h' by blast
  from a fresh q_insert_tail_ok [of h head ps r1 r2 s] obtain h' where h':
    "q_insert_tail h head s r1 r2 = (h', True)" "ring h' head (ps @ [r1])"
    "val h' = (val h)(r1 := r2)" "str h' = (str h)(r2 := s)"
    "allocd h' = insert r1 (insert r2 (allocd h))"
    by blast
  have "prv h' head = r1" using h'(2) by (simp add: ring_def)
  moreover have "nxt h' r1 = head" using h'(2) by (simp add: ring_def)
  moreover have "payload h' r1 = s" using h'(3,4) by (simp add: payload_def)
  ultimately show "\<exists>h'. q_insert_tail h head s r1 r2 = (h', True) \<and> ring h' head (ps @ [r1]) \<and>
             prv h' head = r1 \<and> nxt h' r1 = head \<and> payload h' r1 = s \<and>
             val h' = (val h)(r1 := r2) \<and> str h' = (str h)(r2 := s) \<and>
             allocd h' = insert r1 (insert r2 (allocd h))"
    using h' by blast
qed

theorem q_insert_contract_witness:
  "ring (queue_of [''a'']) 1 [2] \<and> set [1, 2] \<subseteq> allocd (queue_of [''a'']) \<and>
   10 \<notin> allocd (queue_of [''a'']) \<and> 11 \<notin> allocd (queue_of [''a'']) \<and>
   (\<exists>h'. q_insert_head (queue_of [''a'']) 1 ''b'' 10 11 = (h', True) \<and> ring h' 1 [10, 2] \<and>
      payload h' 10 = ''b'') \<and>
   (\<exists>h'. q_insert_tail (queue_of [''a'']) 1 ''b'' 10 11 = (h', True) \<and> ring h' 1 [2, 10] \<and>
      payload h' 10 = ''b'') \<and>
   snd (q_insert_head (queue_of [''a'']) 1 ''b'' 10 NULL) = False \<and>
   unchanged (queue_of [''a'']) (fst (q_insert_head (queue_of [''a'']) 1 ''b'' 10 NULL)) \<and>
   ring (fst (q_insert_tail (queue_of [''a'']) 1 ''b'' 10 NULL)) 1 [2]"
proof -
  have r: "ring (queue_of [''a'']) 1 [2]"
    by (simp add: ring_def queue_of_def)
  have al: "set [1, 2] \<subseteq> allocd (queue_of [''a''])" "10 \<notin> allocd (queue_of [''a''])"
    "11 \<notin> allocd (queue_of [''a''])"
    by (simp_all add: queue_of_def)
  show ?thesis
    using r al
      q_insert_contract [of 10 "queue_of [''a'']" 11 1 "''b''" "[2]"]
      q_insert_contract [of 10 "queue_of [''a'']" NULL 1 "''b''" "[2]"]
    by auto
qed

section \<open>Removal: the output buffer\<close>

text \<open>
  C10. \<^verbatim>\<open>q_remove_head\<close> and \<^verbatim>\<open>q_remove_tail\<close> on a queue that is not empty, with
  a buffer \<open>buf\<close> of \<open>bufsize\<close> bytes: for \<open>bufsize = 0\<close> the index \<open>bufsize - 1\<close> wraps
  around and the writes leave the buffer; for \<open>bufsize \<ge> 1\<close> all writes stay inside it,
  and the buffer then holds the first \<open>min (length payload) (bufsize - 1)\<close> bytes of the
  payload followed by a terminator.
\<close>

theorem q_remove_copy_bounds:
  fixes bufsize :: "'a::len word"
  assumes "head \<noteq> NULL" "\<not> list_empty h head" "length buf = unat bufsize"
  shows
   "(bufsize = 0 \<longrightarrow>
       q_remove_head h head (Some buf) bufsize = Inl OutOfBounds \<and>
       q_remove_tail h head (Some buf) bufsize = Inl OutOfBounds) \<and>
    (bufsize \<noteq> 0 \<longrightarrow>
       (\<exists>buf'. q_remove_head h head (Some buf) bufsize =
                 Inr (list_del h (nxt h head), nxt h head, Some buf') \<and>
               length buf' = unat bufsize \<and>
               take (min (length (payload h (nxt h head))) (unat bufsize - 1)) buf' =
                 take (min (length (payload h (nxt h head))) (unat bufsize - 1)) (payload h (nxt h head)) \<and>
               buf' ! min (length (payload h (nxt h head))) (unat bufsize - 1) = NUL) \<and>
       (\<exists>buf'. q_remove_tail h head (Some buf) bufsize =
                 Inr (list_del h (prv h head), prv h head, Some buf') \<and>
               length buf' = unat bufsize \<and>
               take (min (length (payload h (prv h head))) (unat bufsize - 1)) buf' =
                 take (min (length (payload h (prv h head))) (unat bufsize - 1)) (payload h (prv h head)) \<and>
               buf' ! min (length (payload h (prv h head))) (unat bufsize - 1) = NUL))"
proof (intro conjI impI)
  assume z: "bufsize = 0"
  have "copy_out buf s (0 :: 'a word) = Inl OutOfBounds" for s
    using assms(3) z by (intro copy_out_zero) simp
  then show "q_remove_head h head (Some buf) bufsize = Inl OutOfBounds"
    "q_remove_tail h head (Some buf) bufsize = Inl OutOfBounds"
    using assms(1,2) z by (simp_all add: q_remove_head_def q_remove_tail_def Let_def)
next
  assume nz: "bufsize \<noteq> 0"
  have pos: "0 < unat bufsize" using nz by (simp add: unat_gt_0)
  have pl: "str (list_del h e) (val (list_del h e) e') = payload h e'" for e e'
    by (simp add: payload_def list_del_def store_next_def store_prev_def Let_def)
  have co: "copy_out buf s bufsize = Inr (copied s (unat bufsize - 1) @ NUL # drop (unat bufsize) buf)" for s
    using nz assms(3) by (intro copy_out_pos) simp_all
  have len: "length (copied s (unat bufsize - 1) @ NUL # drop (unat bufsize) buf) = unat bufsize" for s
    using pos assms(3) by (cases "length s \<le> unat bufsize - 1") (simp_all add: copied_def min_def)
  have pre: "take (min (length s) n) (copied s n @ rest) = take (min (length s) n) s" for s n rest
    by (cases "length s \<le> n") (simp_all add: copied_def min_def)
  let ?b = "\<lambda>s. copied s (unat bufsize - 1) @ NUL # drop (unat bufsize) buf"
  have "q_remove_head h head (Some buf) bufsize =
      Inr (list_del h (nxt h head), nxt h head, Some (?b (payload h (nxt h head))))"
    using assms(1,2) by (simp add: q_remove_head_def list_first_entry_def Let_def pl co)
  then show "\<exists>buf'. q_remove_head h head (Some buf) bufsize =
                 Inr (list_del h (nxt h head), nxt h head, Some buf') \<and>
               length buf' = unat bufsize \<and>
               take (min (length (payload h (nxt h head))) (unat bufsize - 1)) buf' =
                 take (min (length (payload h (nxt h head))) (unat bufsize - 1)) (payload h (nxt h head)) \<and>
               buf' ! min (length (payload h (nxt h head))) (unat bufsize - 1) = NUL"
    using len pre copied_terminator by blast
  have "q_remove_tail h head (Some buf) bufsize =
      Inr (list_del h (prv h head), prv h head, Some (?b (payload h (prv h head))))"
    using assms(1,2) by (simp add: q_remove_tail_def list_last_entry_def Let_def pl co)
  then show "\<exists>buf'. q_remove_tail h head (Some buf) bufsize =
                 Inr (list_del h (prv h head), prv h head, Some buf') \<and>
               length buf' = unat bufsize \<and>
               take (min (length (payload h (prv h head))) (unat bufsize - 1)) buf' =
                 take (min (length (payload h (prv h head))) (unat bufsize - 1)) (payload h (prv h head)) \<and>
               buf' ! min (length (payload h (prv h head))) (unat bufsize - 1) = NUL"
    using len pre copied_terminator by blast
qed

theorem q_remove_copy_bounds_witness:
  "(1 :: ptr) \<noteq> NULL \<and> \<not> list_empty (queue_of [''hello'', ''hi'']) 1 \<and>
   length ''xxx'' = unat (3 :: 64 word) \<and> length ([] :: char list) = unat (0 :: 64 word) \<and>
   q_remove_head (queue_of [''hello'', ''hi'']) 1 (Some []) (0 :: 64 word) = Inl OutOfBounds \<and>
   q_remove_tail (queue_of [''hello'', ''hi'']) 1 (Some []) (0 :: 64 word) = Inl OutOfBounds \<and>
   (\<exists>buf'. q_remove_head (queue_of [''hello'', ''hi'']) 1 (Some ''xxx'') (3 :: 64 word) =
        Inr (list_del (queue_of [''hello'', ''hi'']) 2, 2, Some buf') \<and>
      take 2 buf' = ''he'' \<and> buf' ! 2 = NUL) \<and>
   (\<exists>buf'. q_remove_tail (queue_of [''hello'', ''hi'']) 1 (Some ''xxx'') (3 :: 64 word) =
        Inr (list_del (queue_of [''hello'', ''hi'']) 3, 3, Some buf') \<and>
      take 2 buf' = ''hi'' \<and> buf' ! 2 = NUL)"
proof -
  let ?q = "queue_of [''hello'', ''hi'']"
  have ne: "(1 :: ptr) \<noteq> NULL" by simp
  have e: "\<not> list_empty ?q 1"
    by (simp add: list_empty_def queue_of_def)
  have n: "nxt ?q 1 = 2" "prv ?q 1 = 3"
    by (simp_all add: queue_of_def)
  have k: "min (length (payload ?q 2)) (unat (3 :: 64 word) - 1) = 2"
    "min (length (payload ?q 3)) (unat (3 :: 64 word) - 1) = 2"
    "take 2 (payload ?q 2) = ''he''" "take 2 (payload ?q 3) = ''hi''"
    by (simp_all add: queue_of_def payload_def)
  have l3: "length ''xxx'' = unat (3 :: 64 word)" by simp
  have l0: "length ([] :: char list) = unat (0 :: 64 word)" by simp
  have z: "(3 :: 64 word) \<noteq> 0" by simp
  note a = q_remove_copy_bounds [OF ne e l3, unfolded n k]
  note b = q_remove_copy_bounds [OF ne e l0]
  from a z have
    "(\<exists>buf'. q_remove_head ?q 1 (Some ''xxx'') (3 :: 64 word) = Inr (list_del ?q 2, 2, Some buf') \<and>
        take 2 buf' = ''he'' \<and> buf' ! 2 = NUL)"
    "(\<exists>buf'. q_remove_tail ?q 1 (Some ''xxx'') (3 :: 64 word) = Inr (list_del ?q 3, 3, Some buf') \<and>
        take 2 buf' = ''hi'' \<and> buf' ! 2 = NUL)"
    by blast+
  moreover from b have
    "q_remove_head ?q 1 (Some []) (0 :: 64 word) = Inl OutOfBounds"
    "q_remove_tail ?q 1 (Some []) (0 :: 64 word) = Inl OutOfBounds"
    by blast+
  ultimately show ?thesis using ne e l3 l0 by blast
qed

section \<open>The order of payloads\<close>

lemma strcmp_refl [simp]: "strcmp a a = 0"
  by (induction a) auto

lemma strcmp_eq_0_iff [simp]: "strcmp a b = 0 \<longleftrightarrow> a = b"
  by (induction a b rule: strcmp.induct) auto

lemma strcmp_swap: "strcmp b a = - strcmp a b"
  by (induction a b rule: strcmp.induct) auto

lemma strcmp_total: "strcmp a b \<le> 0 \<or> strcmp b a \<le> 0"
  using strcmp_swap [of a b] by linarith

lemma strcmp_antisym: "strcmp a b \<le> 0 \<Longrightarrow> strcmp b a \<le> 0 \<Longrightarrow> a = b"
  using strcmp_swap [of a b] strcmp_eq_0_iff [of a b] by linarith

lemma strcmp_trans: "strcmp a b \<le> 0 \<Longrightarrow> strcmp b c \<le> 0 \<Longrightarrow> strcmp a c \<le> 0"
proof (induction a arbitrary: b c)
  case Nil
  then show ?case by (cases c) auto
next
  case (Cons x xs)
  then show ?case
    by (cases b; cases c) (auto split: if_splits)
qed

section \<open>Deleting duplicates\<close>

lemma dseg_del:
  assumes "dseg h p (as @ x # bs) q" "distinct (as @ x # bs)"
    "p \<notin> set (as @ x # bs)" "q \<notin> set (as @ x # bs)"
  shows "dseg (list_del h x) p (as @ bs) q"
    and "links_kept h (list_del h x) p (as @ x # bs) q"
proof -
  from assms(1) have n: "nxt h x = hd (bs @ [q])" and pv: "prv h x = hd (rev as @ [p])"
    by (auto simp: dseg_def dest: path_first)
  show "dseg (list_del h x) p (as @ bs) q"
  proof (cases as rule: rev_cases)
    case Nil
    then show ?thesis using assms n pv
      by (cases bs) (auto simp: dseg_def list_del_def store_next_def store_prev_def Let_def)
  next
    case (snoc as' a)
    then show ?thesis using assms n pv
      by (cases bs) (auto simp: dseg_def list_del_def store_next_def store_prev_def Let_def)
  qed
  show "links_kept h (list_del h x) p (as @ x # bs) q"
  proof (cases as rule: rev_cases)
    case Nil
    then show ?thesis using assms n pv
      by (cases bs) (auto simp: links_kept_def list_del_def store_next_def store_prev_def Let_def)
  next
    case (snoc as' a)
    then show ?thesis using assms n pv
      by (cases bs) (auto simp: links_kept_def list_del_def store_next_def store_prev_def Let_def)
  qed
qed

lemma dseg_release [simp]: "dseg (q_release_element h e) p xs q = dseg h p xs q"
  by (simp add: dseg_def q_release_element_def free_def)

lemma links_kept_release [simp]:
  "links_kept h (q_release_element h' e) p xs q = links_kept h h' p xs q"
  by (simp add: links_kept_def q_release_element_def free_def)

lemma links_kept_refl [simp]: "links_kept h h p xs q"
  by (simp add: links_kept_def)

lemma links_kept_trans:
  "links_kept h h1 p xs q \<Longrightarrow> links_kept h1 h2 p ys q \<Longrightarrow> set ys \<subseteq> set xs \<Longrightarrow>
   links_kept h h2 p xs q"
  by (auto simp: links_kept_def)

lemma payload_kept: "links_kept h h' p xs q \<Longrightarrow> payload h' = payload h"
  by (simp add: links_kept_def payload_def fun_eq_iff)

lemma allocd_release_del:
  "allocd (q_release_element (list_del h x) x) = allocd h - blocks_of h {x}"
  by (auto simp: release_del_fields blocks_of_def)

lemma blocks_of_empty [simp]: "blocks_of h {} = {}"
  by (simp add: blocks_of_def)

lemma blocks_of_val: "val h' = val h \<Longrightarrow> blocks_of h' S = blocks_of h S"
  by (simp add: blocks_of_def)

lemma q_delete_dup_inner_dseg:
  assumes "dseg h p (start # ys) head" "distinct (start # ys)"
    "p \<notin> set (start # ys)" "head \<notin> set (start # ys)"
  shows "\<exists>h'. q_delete_dup_inner h head start (hd (ys @ [head])) prev =
             Some (h', hd (dropWhile (\<lambda>y. payload h y = payload h start) ys @ [head]),
                   if takeWhile (\<lambda>y. payload h y = payload h start) ys = [] then prev else start) \<and>
           dseg h' p (start # dropWhile (\<lambda>y. payload h y = payload h start) ys) head \<and>
           links_kept h h' p (start # ys) head \<and>
           allocd h' = allocd h - blocks_of h (set (takeWhile (\<lambda>y. payload h y = payload h start) ys))"
  using assms
proof (induction ys arbitrary: h prev)
  case Nil
  then show ?case
    by (subst q_delete_dup_inner.simps) simp
next
  case (Cons y ys)
  show ?case
  proof (cases "payload h y = payload h start")
    case False
    then show ?thesis using Cons.prems
      by (subst q_delete_dup_inner.simps) (simp add: payload_def)
  next
    case True
    define h2 where "h2 = q_release_element (list_del h y) y"
    have d: "dseg h2 p (start # ys) head" "links_kept h h2 p (start # y # ys) head"
      using dseg_del [of h p "[start]" y ys head] Cons.prems by (simp_all add: h2_def)
    have pl: "payload h2 = payload h" using d(2) by (rule payload_kept)
    have vl: "val h2 = val h" using d(2) by (simp add: links_kept_def)
    have n: "nxt h y = hd (ys @ [head])" using Cons.prems(1) by (auto simp: dseg_def dest: path_first)
    have al: "allocd h2 = allocd h - blocks_of h {y}" by (simp add: h2_def allocd_release_del)
    from Cons.IH [OF d(1), of start] Cons.prems obtain h' where h':
      "q_delete_dup_inner h2 head start (hd (ys @ [head])) start =
         Some (h', hd (dropWhile (\<lambda>y. payload h y = payload h start) ys @ [head]), start)"
      "dseg h' p (start # dropWhile (\<lambda>y. payload h y = payload h start) ys) head"
      "links_kept h2 h' p (start # ys) head"
      "allocd h' = allocd h2 - blocks_of h (set (takeWhile (\<lambda>y. payload h y = payload h start) ys))"
      by (auto simp: pl blocks_of_val [OF vl])
    have "q_delete_dup_inner h head start y prev =
        Some (h', hd (dropWhile (\<lambda>y. payload h y = payload h start) ys @ [head]), start)"
      using True Cons.prems(4) h'(1) n
      by (subst q_delete_dup_inner.simps) (simp add: payload_def h2_def Let_def)
    moreover have "links_kept h h' p (start # y # ys) head"
      using d(2) h'(3) by (rule links_kept_trans) auto
    moreover have "allocd h' =
        allocd h - blocks_of h (set (y # takeWhile (\<lambda>y. payload h y = payload h start) ys))"
      using h'(4) al by (auto simp: blocks_of_def)
    ultimately show ?thesis using True h'(2) by simp
  qed
qed

lemma set_drop_runs: "set (drop_runs key xs) \<subseteq> set xs"
proof (induction key xs rule: drop_runs.induct)
  case (1 key)
  then show ?case by simp
next
  case (2 key x ys)
  have "set (dropWhile (\<lambda>y. key y = key x) ys) \<subseteq> set ys"
    by (auto dest: set_dropWhileD)
  with 2 show ?case by (auto simp del: drop_runs.simps simp add: drop_runs.simps(2) [of key x ys])
qed

lemma distinct_drop_runs: "distinct xs \<Longrightarrow> distinct (drop_runs key xs)"
proof (induction key xs rule: drop_runs.induct)
  case (1 key)
  then show ?case by simp
next
  case (2 key x ys)
  let ?rest = "dropWhile (\<lambda>y. key y = key x) ys"
  have "distinct ?rest" using 2(3) by simp
  moreover have "x \<notin> set (drop_runs key ?rest)"
    using set_drop_runs [of key ?rest] 2(3) by (auto dest: set_dropWhileD)
  ultimately show ?case using 2(1,2)
    by (auto simp del: drop_runs.simps simp add: drop_runs.simps(2) [of key x ys])
qed

lemma removed_step:
  assumes "distinct (x # ys)"
  shows "set (x # ys) - set (drop_runs key (x # ys)) =
     (if takeWhile (\<lambda>y. key y = key x) ys = [] then {}
      else insert x (set (takeWhile (\<lambda>y. key y = key x) ys))) \<union>
     (set (dropWhile (\<lambda>y. key y = key x) ys) - set (drop_runs key (dropWhile (\<lambda>y. key y = key x) ys)))"
proof -
  let ?run = "takeWhile (\<lambda>y. key y = key x) ys"
  let ?rest = "dropWhile (\<lambda>y. key y = key x) ys"
  have "distinct (?run @ ?rest)" using assms by simp
  then have dj1: "set ?run \<inter> set ?rest = {}" by (simp only: distinct_append)
  have dj2: "x \<notin> set ?run" "x \<notin> set ?rest"
    using assms by (auto dest: set_takeWhileD set_dropWhileD)
  have s: "set ys = set ?run \<union> set ?rest"
    using set_append [of ?run ?rest] by simp
  have sub: "set (drop_runs key ?rest) \<subseteq> set ?rest" by (rule set_drop_runs)
  have eq: "drop_runs key (x # ys) = (if ?run = [] then x # drop_runs key ?rest else drop_runs key ?rest)"
    by (rule drop_runs.simps(2))
  show ?thesis
  proof (cases "?run = []")
    case True
    have "set (x # ys) - set (x # drop_runs key ?rest) = set ?rest - set (drop_runs key ?rest)"
      using dj1 dj2 sub unfolding set_simps s True by auto
    then show ?thesis unfolding eq using True by simp
  next
    case False
    have "set (x # ys) - set (drop_runs key ?rest) =
        insert x (set ?run) \<union> (set ?rest - set (drop_runs key ?rest))"
      using dj1 dj2 sub unfolding set_simps s by auto
    then show ?thesis unfolding eq using False by simp
  qed
qed

lemma hd_snoc_neq: "q \<notin> set xs \<Longrightarrow> (hd (xs @ [q]) \<noteq> q) = (xs \<noteq> [])"
  by (cases xs) auto

lemma q_delete_dup_outer_dseg:
  assumes "dseg h p xs head" "distinct xs" "p \<notin> set xs" "head \<notin> set xs" "NULL \<notin> set xs"
    "(e \<noteq> head) = (xs \<noteq> [])"
  shows "\<exists>h'. q_delete_dup_outer h head (hd (xs @ [head])) e NULL = Some h' \<and>
           dseg h' p (drop_runs (payload h) xs) head \<and>
           links_kept h h' p xs head \<and>
           allocd h' = allocd h - blocks_of h (set xs - set (drop_runs (payload h) xs))"
  using assms
proof (induction "length xs" arbitrary: xs h p e rule: less_induct)
  case less
  show ?case
  proof (cases xs)
    case Nil
    then show ?thesis using less.prems
      by (subst q_delete_dup_outer.simps) simp
  next
    case (Cons x ys)
    let ?run = "takeWhile (\<lambda>y. payload h y = payload h x) ys"
    let ?rest = "dropWhile (\<lambda>y. payload h y = payload h x) ys"
    have e: "e \<noteq> head" using less.prems(6) Cons by simp
    have x: "x \<noteq> NULL" "x \<noteq> head" "x \<noteq> p" using less.prems Cons by auto
    have n: "nxt h x = hd (ys @ [head])"
      using less.prems(1) Cons by (auto simp: dseg_def dest: path_first)
    from q_delete_dup_inner_dseg [of h p x ys head NULL] less.prems Cons
    obtain h1 where h1:
      "q_delete_dup_inner h head x (hd (ys @ [head])) NULL =
         Some (h1, hd (?rest @ [head]), if ?run = [] then NULL else x)"
      "dseg h1 p (x # ?rest) head" "links_kept h h1 p (x # ys) head"
      "allocd h1 = allocd h - blocks_of h (set ?run)"
      by auto
    have pl1: "payload h1 = payload h" using h1(3) by (rule payload_kept)
    have vl1: "val h1 = val h" using h1(3) by (simp add: links_kept_def)
    have sub: "set ?rest \<subseteq> set ys" by (auto dest: set_dropWhileD)
    have dr: "distinct ?rest" "head \<notin> set ?rest" "NULL \<notin> set ?rest" "p \<notin> set ?rest" "x \<notin> set ?rest"
      using less.prems Cons sub by auto
    have len: "length ?rest < length xs"
      using length_dropWhile_le [of "\<lambda>y. payload h y = payload h x" ys] Cons by simp
    have eh: "(hd (?rest @ [head]) \<noteq> head) = (?rest \<noteq> [])"
      using dr(2) by (rule hd_snoc_neq)
    have hdrest: "hd (?rest @ [head]) = hd (?rest @ [head])" ..
    show ?thesis
    proof (cases "?run = []")
      case True
      have d1: "dseg h1 x ?rest head" using h1(2) by (simp add: dseg_def)
      note ih = less.hyps [OF len d1 dr(1) dr(5) dr(2) dr(3) eh, unfolded pl1 blocks_of_val [OF vl1]]
      from ih obtain h' where h':
        "q_delete_dup_outer h1 head (hd (?rest @ [head])) (hd (?rest @ [head])) NULL = Some h'"
        "dseg h' x (drop_runs (payload h) ?rest) head"
        "links_kept h1 h' x ?rest head"
        "allocd h' = allocd h1 - blocks_of h (set ?rest - set (drop_runs (payload h) ?rest))"
        by blast
      have run: "q_delete_dup_outer h head x e NULL = Some h'"
        using e h1(1) h'(1) True n
        by (subst q_delete_dup_outer.simps) simp
      have px: "prv h1 x = p" "nxt h1 p = x" using h1(2) by (simp_all add: dseg_def)
      have "x \<notin> set (drop_runs (payload h) ?rest)" "p \<notin> set (drop_runs (payload h) ?rest)"
        using set_drop_runs [of "payload h" ?rest] dr by auto
      then have "dseg h' p (x # drop_runs (payload h) ?rest) head"
        using h'(2,3) px x dr by (simp add: dseg_def links_kept_def)
      moreover have "links_kept h h' p (x # ys) head"
        using h1(3) h'(3) sub by (auto simp: links_kept_def)
      moreover have "allocd h' = allocd h - blocks_of h (set xs - set (drop_runs (payload h) xs))"
        using h'(4) h1(4) True less.prems(2) unfolding Cons
        by (subst removed_step) (simp_all only: if_True Un_empty_left list.set blocks_of_empty Diff_empty simp_thms)
      ultimately show ?thesis using run True Cons by simp
    next
      case False
      define h2 where "h2 = q_release_element (list_del h1 x) x"
      have d2: "dseg h2 p ?rest head" "links_kept h1 h2 p (x # ?rest) head"
        using dseg_del [of h1 p "[]" x ?rest head] h1(2) dr less.prems Cons
        by (simp_all add: h2_def)
      have pl2: "payload h2 = payload h" using d2(2) pl1 by (simp add: payload_kept)
      have vl2: "val h2 = val h" using d2(2) vl1 by (simp add: links_kept_def)
      have al2: "allocd h2 = allocd h1 - blocks_of h {x}"
        by (simp add: h2_def allocd_release_del blocks_of_val [OF vl1])
      note ih = less.hyps [OF len d2(1) dr(1) dr(4) dr(2) dr(3) eh, unfolded pl2 blocks_of_val [OF vl2]]
      from ih obtain h' where h':
        "q_delete_dup_outer h2 head (hd (?rest @ [head])) (hd (?rest @ [head])) NULL = Some h'"
        "dseg h' p (drop_runs (payload h) ?rest) head"
        "links_kept h2 h' p ?rest head"
        "allocd h' = allocd h2 - blocks_of h (set ?rest - set (drop_runs (payload h) ?rest))"
        by blast
      have run: "q_delete_dup_outer h head x e NULL = Some h'"
        using e h1(1) h'(1) False n x(1)
        by (subst q_delete_dup_outer.simps) (simp add: h2_def)
      have "links_kept h h2 p (x # ys) head"
        using h1(3) d2(2) by (rule links_kept_trans) (use sub in auto)
      then have "links_kept h h' p (x # ys) head"
        using h'(3) by (rule links_kept_trans) (use sub in auto)
      moreover have "allocd h' = allocd h - blocks_of h (set xs - set (drop_runs (payload h) xs))"
        using h'(4) al2 h1(4) False less.prems(2) unfolding Cons
        by (subst removed_step) (auto simp: blocks_of_def)
      ultimately show ?thesis using run False Cons h'(2) by simp
    qed
  qed
qed

lemma sorted_rest_neq:
  assumes "sorted_wrt (\<lambda>a b. strcmp (key a) (key b) \<le> 0) (x # ys)"
    "z \<in> set (dropWhile (\<lambda>y. key y = key x) ys)"
  shows "key z \<noteq> key x"
proof (cases "dropWhile (\<lambda>y. key y = key x) ys")
  case Nil
  show ?thesis using assms(2) unfolding Nil by simp
next
  case (Cons w ws)
  then have w: "key w \<noteq> key x" using hd_dropWhile [of "\<lambda>y. key y = key x" ys] by auto
  have ys: "ys = takeWhile (\<lambda>y. key y = key x) ys @ w # ws"
    using Cons takeWhile_dropWhile_id [of "\<lambda>y. key y = key x" ys] by simp
  have s: "sorted_wrt (\<lambda>a b. strcmp (key a) (key b) \<le> 0) (x # w # ws)"
    using assms(1) by (subst (asm) ys) (auto simp: sorted_wrt_append)
  show ?thesis
  proof
    assume e: "key z = key x"
    then have "z \<in> set ws" using assms(2) Cons w by auto
    then have "strcmp (key w) (key z) \<le> 0" "strcmp (key x) (key w) \<le> 0" using s by auto
    then have "key w = key x" using e strcmp_antisym by metis
    then show False using w by simp
  qed
qed

lemma count_run:
  "\<forall>y \<in> set ys. key y = k \<Longrightarrow> count_list (map key ys) k' = (if k' = k then length ys else 0)"
  by (induction ys) auto

lemma count_none: "\<forall>y \<in> set ys. key y \<noteq> k \<Longrightarrow> count_list (map key ys) k = 0"
  by (induction ys) auto

lemma drop_runs_sorted:
  assumes "sorted_wrt (\<lambda>a b. strcmp (key a) (key b) \<le> 0) xs"
  shows "drop_runs key xs = filter (occurs_once key xs) xs"
  using assms
proof (induction "length xs" arbitrary: xs rule: less_induct)
  case less
  show ?case
  proof (cases xs)
    case Nil
    then show ?thesis by simp
  next
    case (Cons x ys)
    let ?P = "\<lambda>y. key y = key x"
    let ?run = "takeWhile ?P ys"
    let ?rest = "dropWhile ?P ys"
    have ys: "ys = ?run @ ?rest" by simp
    have run: "\<forall>y \<in> set ?run. key y = key x" by (auto dest: set_takeWhileD)
    have rest: "\<forall>z \<in> set ?rest. key z \<noteq> key x"
      using sorted_rest_neq [of key x ys] less.prems Cons by blast
    have "sorted_wrt (\<lambda>a b. strcmp (key a) (key b) \<le> 0) (?run @ ?rest)"
      using less.prems Cons by simp
    then have srt: "sorted_wrt (\<lambda>a b. strcmp (key a) (key b) \<le> 0) ?rest"
      unfolding sorted_wrt_append by blast
    have len: "length ?rest < length xs"
      using length_dropWhile_le [of ?P ys] Cons by simp
    have ih: "drop_runs key ?rest = filter (occurs_once key ?rest) ?rest"
      using less.hyps [OF len srt] .
    have cnt: "count_list (map key (x # ys)) k =
        (if k = key x then Suc (length ?run) else count_list (map key ?rest) k)" for k
    proof -
      have "count_list (map key ys) k = count_list (map key (?run @ ?rest)) k"
        by simp
      then have "count_list (map key ys) k =
          count_list (map key ?run) k + count_list (map key ?rest) k"
        by (simp only: map_append count_list_append)
      then show ?thesis
        using count_run [OF run, of k] count_none [OF rest] by (auto split: if_splits)
    qed
    have oo: "occurs_once key (x # ys) z =
        (if key z = key x then ?run = [] else occurs_once key ?rest z)" for z
      unfolding occurs_once_def cnt by simp
    have fx: "occurs_once key (x # ys) x = (?run = [])"
      unfolding oo by simp
    have frun: "filter (occurs_once key (x # ys)) ?run = []"
    proof -
      have "\<not> occurs_once key (x # ys) z" if "z \<in> set ?run" for z
      proof -
        have "key z = key x" using that run by blast
        moreover have "?run \<noteq> []" using that by (cases ?run) simp_all
        ultimately show ?thesis by (simp only: oo simp_thms if_True)
      qed
      then show ?thesis unfolding filter_empty_conv by blast
    qed
    have frest: "filter (occurs_once key (x # ys)) ?rest = filter (occurs_once key ?rest) ?rest"
    proof (rule filter_cong [OF refl])
      fix z
      assume "z \<in> set ?rest"
      then have "key z \<noteq> key x" using rest by blast
      then show "occurs_once key (x # ys) z = occurs_once key ?rest z"
        by (simp only: oo if_False)
    qed
    have "filter (occurs_once key (x # ys)) (x # ?run @ ?rest) =
        (if ?run = [] then x # filter (occurs_once key ?rest) ?rest
         else filter (occurs_once key ?rest) ?rest)"
      unfolding filter.simps filter_append fx frun frest by simp
    then have "filter (occurs_once key (x # ys)) (x # ys) =
        (if ?run = [] then x # drop_runs key ?rest else drop_runs key ?rest)"
      unfolding ih by simp
    then show ?thesis unfolding Cons drop_runs.simps(2) [of key x ys] by simp
  qed
qed

lemma q_delete_dup_ring:
  assumes "ring h head ps"
  shows "\<exists>h'. q_delete_dup h head = Some (h', True) \<and>
           ring h' head (drop_runs (payload h) ps) \<and>
           val h' = val h \<and> str h' = str h \<and>
           allocd h' = allocd h - blocks_of h (set ps - set (drop_runs (payload h) ps))"
proof (cases ps)
  case Nil
  then show ?thesis using assms ring_empty [OF assms]
    by (simp add: q_delete_dup_def ring_def)
next
  case (Cons a as)
  have d: "dseg h head ps head" "distinct ps" "head \<notin> set ps" "NULL \<notin> set ps" "head \<noteq> NULL"
    using assms by (auto simp: ring_dseg)
  have n: "nxt h head = hd (ps @ [head])"
    using d(1) by (auto simp: dseg_def dest: path_first)
  have e: "(NULL \<noteq> head) = (ps \<noteq> [])" using d(5) Cons by auto
  from q_delete_dup_outer_dseg [OF d(1,2,3,3,4) e] obtain h' where h':
    "q_delete_dup_outer h head (hd (ps @ [head])) NULL NULL = Some h'"
    "dseg h' head (drop_runs (payload h) ps) head"
    "links_kept h h' head ps head"
    "allocd h' = allocd h - blocks_of h (set ps - set (drop_runs (payload h) ps))"
    by blast
  have "ring h' head (drop_runs (payload h) ps)"
    using h'(2) d set_drop_runs [of "payload h" ps] distinct_drop_runs [of ps "payload h"]
    by (auto simp: ring_dseg)
  moreover have "q_delete_dup h head = Some (h', True)"
    using h'(1) d(5) n ring_empty [OF assms] Cons by (simp add: q_delete_dup_def)
  ultimately show ?thesis using h'(3,4) by (simp add: links_kept_def)
qed

lemma q_delete_dup_false: "q_delete_dup h head = Some (h', False) \<Longrightarrow> head = NULL"
  by (cases "head = NULL"; cases "list_empty h head";
      cases "q_delete_dup_outer h head (nxt h head) NULL NULL")
     (simp_all add: q_delete_dup_def)

text \<open>
  C3. On every queue \<^verbatim>\<open>q_delete_dup\<close> returns true and leaves \<open>drop_runs\<close> of the
  elements: every maximal run of two or more adjacent elements with equal payloads is
  deleted as a whole, its first element included, and the deleted elements and their
  strings are released. When the payloads are in ascending order these are the elements
  whose payload occurs more than once, so the elements that stay are those whose payload
  occurs exactly once. False is returned for the null handle only; an empty queue gives true
  and is not changed. Payloads \<open>[1, 1, 2, 3, 3, 3, 4]\<close> become \<open>[2, 4]\<close>.
\<close>

theorem q_delete_dup_removes_runs:
  "q_delete_dup h NULL = Some (h, False) \<and>
   (ring h head [] \<longrightarrow> q_delete_dup h head = Some (h, True)) \<and>
   (q_delete_dup h head = Some (h1, False) \<longrightarrow> head = NULL) \<and>
   (ring h head ps \<longrightarrow>
      (\<exists>h'. q_delete_dup h head = Some (h', True) \<and>
            ring h' head (drop_runs (payload h) ps) \<and>
            val h' = val h \<and> str h' = str h \<and>
            allocd h' = allocd h - blocks_of h (set ps - set (drop_runs (payload h) ps)))) \<and>
   (ring h head ps \<and> ascending h ps \<longrightarrow>
      (\<exists>h'. q_delete_dup h head = Some (h', True) \<and>
            ring h' head (filter (occurs_once (payload h) ps) ps) \<and>
            val h' = val h \<and> str h' = str h \<and>
            allocd h' = allocd h - blocks_of h {p \<in> set ps. \<not> occurs_once (payload h) ps p})) \<and>
   (ring h head [a, b, c, d, e, f, g] \<and>
    map (payload h) [a, b, c, d, e, f, g] = [''1'', ''1'', ''2'', ''3'', ''3'', ''3'', ''4''] \<longrightarrow>
      (\<exists>h'. q_delete_dup h head = Some (h', True) \<and> ring h' head [c, g] \<and>
            map (payload h') [c, g] = [''2'', ''4'']))"
proof (intro conjI impI)
  show "q_delete_dup h NULL = Some (h, False)" by (simp add: q_delete_dup_def)
  show "q_delete_dup h head = Some (h, True)" if "ring h head []"
    using that ring_empty [OF that] by (simp add: q_delete_dup_def ring_def)
  show "head = NULL" if "q_delete_dup h head = Some (h1, False)"
    using that by (rule q_delete_dup_false)
  show "\<exists>h'. q_delete_dup h head = Some (h', True) \<and>
            ring h' head (drop_runs (payload h) ps) \<and>
            val h' = val h \<and> str h' = str h \<and>
            allocd h' = allocd h - blocks_of h (set ps - set (drop_runs (payload h) ps))"
    if "ring h head ps"
    using that by (rule q_delete_dup_ring)
  show "\<exists>h'. q_delete_dup h head = Some (h', True) \<and>
            ring h' head (filter (occurs_once (payload h) ps) ps) \<and>
            val h' = val h \<and> str h' = str h \<and>
            allocd h' = allocd h - blocks_of h {p \<in> set ps. \<not> occurs_once (payload h) ps p}"
    if a: "ring h head ps \<and> ascending h ps"
  proof -
    have eq: "drop_runs (payload h) ps = filter (occurs_once (payload h) ps) ps"
      using a by (intro drop_runs_sorted) (simp add: ascending_def)
    have "set ps - set (filter (occurs_once (payload h) ps) ps) =
        {p \<in> set ps. \<not> occurs_once (payload h) ps p}"
      by auto
    then show ?thesis using q_delete_dup_ring [of h head ps] a unfolding eq by simp
  qed
  show "\<exists>h'. q_delete_dup h head = Some (h', True) \<and> ring h' head [c, g] \<and>
            map (payload h') [c, g] = [''2'', ''4'']"
    if a: "ring h head [a, b, c, d, e, f, g] \<and>
      map (payload h) [a, b, c, d, e, f, g] = [''1'', ''1'', ''2'', ''3'', ''3'', ''3'', ''4'']"
  proof -
    from a have p: "payload h a = ''1''" "payload h b = ''1''" "payload h c = ''2''"
      "payload h d = ''3''" "payload h e = ''3''" "payload h f = ''3''" "payload h g = ''4''"
      by simp_all
    have "drop_runs (payload h) [a, b, c, d, e, f, g] = [c, g]"
      by (simp add: p)
    then show ?thesis
      using q_delete_dup_ring [of h head "[a, b, c, d, e, f, g]"] a p
      by (auto simp: payload_def)
  qed
qed

theorem q_delete_dup_removes_runs_witness:
  "ring (queue_of [''1'', ''1'', ''2'', ''3'', ''3'', ''3'', ''4'']) 1 [2, 3, 4, 5, 6, 7, 8] \<and>
   ascending (queue_of [''1'', ''1'', ''2'', ''3'', ''3'', ''3'', ''4'']) [2, 3, 4, 5, 6, 7, 8] \<and>
   map (payload (queue_of [''1'', ''1'', ''2'', ''3'', ''3'', ''3'', ''4''])) [2, 3, 4, 5, 6, 7, 8] =
     [''1'', ''1'', ''2'', ''3'', ''3'', ''3'', ''4''] \<and>
   (\<exists>h'. q_delete_dup (queue_of [''1'', ''1'', ''2'', ''3'', ''3'', ''3'', ''4'']) 1 = Some (h', True) \<and>
      ring h' 1 [4, 8] \<and> map (payload h') [4, 8] = [''2'', ''4'']) \<and>
   ring (queue_of []) 1 [] \<and> q_delete_dup (queue_of []) 1 = Some (queue_of [], True)"
proof -
  let ?q = "queue_of [''1'', ''1'', ''2'', ''3'', ''3'', ''3'', ''4'']"
  have r: "ring ?q 1 [2, 3, 4, 5, 6, 7, 8]"
    by (simp add: ring_def queue_of_def)
  have p: "map (payload ?q) [2, 3, 4, 5, 6, 7, 8] = [''1'', ''1'', ''2'', ''3'', ''3'', ''3'', ''4'']"
    by (simp add: payload_def queue_of_def)
  have s: "ascending ?q [2, 3, 4, 5, 6, 7, 8]"
    using p by (simp add: ascending_def)
  have r0: "ring (queue_of []) 1 []"
    by (simp add: ring_def queue_of_def)
  note t = q_delete_dup_removes_runs [of ?q 1 ?q "[2, 3, 4, 5, 6, 7, 8]" 2 3 4 5 6 7 8]
  note ex = t [THEN conjunct2, THEN conjunct2, THEN conjunct2, THEN conjunct2, THEN conjunct2,
      THEN mp, OF conjI [OF r p]]
  note t0 = q_delete_dup_removes_runs [of "queue_of []" 1 "queue_of []" "[]"]
  note e0 = t0 [THEN conjunct2, THEN conjunct1, THEN mp, OF r0]
  show ?thesis
    using r s p ex r0 e0 by (intro conjI)
qed

section \<open>Merge sort on lists\<close>

lemma merge_by_Nil2 [simp]: "merge_by key xs [] = xs"
  by (cases xs) auto

lemma mset_merge_by [simp]: "mset (merge_by key xs ys) = mset xs + mset ys"
  by (induction key xs ys rule: merge_by.induct) auto

lemma set_merge_by [simp]: "set (merge_by key xs ys) = set xs \<union> set ys"
  by (induction key xs ys rule: merge_by.induct) auto

lemma mset_msort_by [simp]: "mset (msort_by key xs) = mset xs"
proof (induction key xs rule: msort_by.induct)
  case (1 key xs)
  show ?case
  proof (cases "length xs \<le> 1")
    case True
    then show ?thesis by (subst msort_by.simps) simp
  next
    case False
    have "mset (take ((length xs + 1) div 2) xs) + mset (drop ((length xs + 1) div 2) xs) = mset xs"
      by (metis append_take_drop_id mset_append)
    then show ?thesis using False 1 by (subst msort_by.simps) simp
  qed
qed

lemma set_msort_by [simp]: "set (msort_by key xs) = set xs"
  using mset_msort_by [of key xs] by (metis set_mset_mset)

lemma length_msort_by [simp]: "length (msort_by key xs) = length xs"
  using mset_msort_by [of key xs] by (metis size_mset)

lemma sorted_merge_by:
  "sorted_wrt (le_key key) xs \<Longrightarrow> sorted_wrt (le_key key) ys \<Longrightarrow>
   sorted_wrt (le_key key) (merge_by key xs ys)"
proof (induction key xs ys rule: merge_by.induct)
  case (3 key x xs y ys)
  show ?case
  proof (cases "strcmp (key x) (key y) \<le> 0")
    case True
    have "le_key key x z" if "z \<in> set ys" for z
      using that 3(4) True strcmp_trans [of "key x" "key y" "key z"] by auto
    then show ?thesis using True 3 by auto
  next
    case False
    then have yx: "strcmp (key y) (key x) \<le> 0" using strcmp_total [of "key x" "key y"] by simp
    have "le_key key y z" if "z \<in> set xs" for z
      using that 3(3) yx strcmp_trans [of "key y" "key x" "key z"] by auto
    then show ?thesis using False yx 3 by auto
  qed
qed simp_all

lemma sorted_msort_by: "sorted_wrt (le_key key) (msort_by key xs)"
proof (induction key xs rule: msort_by.induct)
  case (1 key xs)
  show ?case
  proof (cases "length xs \<le> 1")
    case True
    then show ?thesis
      by (subst msort_by.simps) (cases xs; simp)
  next
    case False
    then show ?thesis using 1 by (subst msort_by.simps) (simp add: sorted_merge_by)
  qed
qed

lemma filter_merge_by:
  "sorted_wrt (le_key key) xs \<Longrightarrow>
   filter (\<lambda>z. key z = k) (merge_by key xs ys) =
     filter (\<lambda>z. key z = k) xs @ filter (\<lambda>z. key z = k) ys"
proof (induction key xs ys rule: merge_by.induct)
  case (3 key x xs y ys)
  show ?case
  proof (cases "strcmp (key x) (key y) \<le> 0")
    case True
    then show ?thesis using 3 by simp
  next
    case False
    have "key z \<noteq> key y" if "z \<in> set (x # xs)" for z
    proof
      assume e: "key z = key y"
      have "le_key key x z" using that 3(3) by auto
      then show False using False e by simp
    qed
    then have "filter (\<lambda>z. key z = key y) (x # xs) = []"
      unfolding filter_empty_conv by blast
    then show ?thesis using False 3 by (cases "key y = k") auto
  qed
qed simp_all

lemma filter_msort_by:
  "filter (\<lambda>z. key z = k) (msort_by key xs) = filter (\<lambda>z. key z = k) xs"
proof (induction key xs rule: msort_by.induct)
  case (1 key xs)
  show ?case
  proof (cases "length xs \<le> 1")
    case True
    then show ?thesis by (subst msort_by.simps) simp
  next
    case False
    let ?m = "(length xs + 1) div 2"
    have "filter (\<lambda>z. key z = k) (take ?m xs) @ filter (\<lambda>z. key z = k) (drop ?m xs) =
        filter (\<lambda>z. key z = k) xs"
      by (metis append_take_drop_id filter_append)
    then show ?thesis using False 1
      by (subst msort_by.simps) (simp add: filter_merge_by sorted_msort_by)
  qed
qed

lemma precedes_filter:
  "P x \<Longrightarrow> P y \<Longrightarrow> precedes x y (filter P xs) = precedes x y xs"
  by (induction xs) auto

lemma precedes_msort_by:
  assumes "key x = key y"
  shows "precedes x y (msort_by key xs) = precedes x y xs"
proof -
  have "precedes x y (msort_by key xs) = precedes x y (filter (\<lambda>z. key z = key y) (msort_by key xs))"
    using assms by (simp add: precedes_filter)
  also have "\<dots> = precedes x y (filter (\<lambda>z. key z = key y) xs)"
    by (simp only: filter_msort_by)
  also have "\<dots> = precedes x y xs"
    using assms by (simp add: precedes_filter)
  finally show ?thesis .
qed

lemma msort_by_short: "length xs \<le> 1 \<Longrightarrow> msort_by key xs = xs"
  by (subst msort_by.simps) simp

lemma msort_by_long:
  "\<not> length xs \<le> 1 \<Longrightarrow>
   msort_by key xs = merge_by key (msort_by key (take ((length xs + 1) div 2) xs))
                                  (msort_by key (drop ((length xs + 1) div 2) xs))"
  by (subst msort_by.simps) simp

section \<open>Merge sort on the heap\<close>

lemma chain_upd [simp]: "a \<notin> set ps \<Longrightarrow> chain (f(a := v)) p ps = chain f p ps"
  by (induction ps arbitrary: p) auto

lemma chain_cong: "(\<And>a. a \<in> set ps \<Longrightarrow> f a = g a) \<Longrightarrow> chain f p ps = chain g p ps"
  by (induction ps arbitrary: p) auto

lemma chain_unique: "chain f p as \<Longrightarrow> chain f p bs \<Longrightarrow> as = bs"
proof (induction as arbitrary: p bs)
  case Nil
  then show ?case by (cases bs) auto
next
  case (Cons a as)
  then show ?case by (cases bs) auto
qed

lemma chain_suffix: "chain f p (bs @ a # cs) \<Longrightarrow> chain f (f a) cs \<and> a \<noteq> NULL"
  by (induction bs arbitrary: p) auto

lemma chain_not_in_tail:
  assumes "chain f (f a) as"
  shows "a \<notin> set as"
proof
  assume "a \<in> set as"
  then obtain bs cs where as: "as = bs @ a # cs" by (auto simp: in_set_conv_decomp)
  then have "chain f (f a) cs" using assms chain_suffix by blast
  then have "as = cs" using assms chain_unique by blast
  then show False using as by simp
qed

lemma chain_distinct: "chain f p ps \<Longrightarrow> distinct ps"
  by (induction ps arbitrary: p) (auto dest: chain_not_in_tail)

lemma chain_hd: "chain f p ps \<Longrightarrow> p = hd (ps @ [NULL])"
  by (cases ps) auto

lemma chain_nth:
  "chain f p ps \<Longrightarrow> i < length ps \<Longrightarrow> f (ps ! i) = (ps @ [NULL]) ! Suc i \<and> ps ! i \<noteq> NULL"
proof (induction ps arbitrary: p i)
  case Nil
  then show ?case by simp
next
  case (Cons q qs)
  show ?case
  proof (cases i)
    case 0
    then show ?thesis using Cons.prems chain_hd [of f "f q" qs] by (cases qs) auto
  next
    case (Suc j)
    then show ?thesis using Cons.prems Cons.IH [of "f q" j] by simp
  qed
qed

lemma chain_split:
  assumes "chain f p (as @ bs)" "as \<noteq> []"
  shows "chain (f(last as := NULL)) p as" "chain (f(last as := NULL)) (f (last as)) bs"
proof -
  have d: "distinct (as @ bs)" using assms(1) by (rule chain_distinct)
  have l: "last as \<notin> set bs" using d assms(2) by (auto dest: last_in_set)
  obtain cs a where as: "as = cs @ [a]" using assms(2) by (cases as rule: rev_cases) auto
  have "chain f (f a) bs" using assms(1) chain_suffix [of f p cs a bs] by (simp add: as)
  then show "chain (f(last as := NULL)) (f (last as)) bs" using l by (simp add: as)
  show "chain (f(last as := NULL)) p as"
    using assms(1) d unfolding as
  proof (induction cs arbitrary: p)
    case Nil
    then show ?case by simp
  next
    case (Cons c cs)
    then show ?case by auto
  qed
qed

lemma merge_from_stop:
  "l1 = NULL \<or> l2 = NULL \<Longrightarrow>
   merge_from (h, l1, l2, hd0) ptr = Some (assign (h, l1, l2, hd0) ptr (l1 OR l2))"
  unfolding merge_from_def by (subst merge_two_lists_loop.simps) auto

lemma merge_from_step:
  assumes "l1 \<noteq> NULL" "l2 \<noteq> NULL" "loc_ok ptr {l1, l2}"
  shows "merge_from (h, l1, l2, hd0) ptr =
     (if strcmp (payload h l1) (payload h l2) \<le> 0
      then merge_from (assign (assign (h, l1, l2, hd0) ptr l1) Var_l1
                         (nxt (fst (assign (h, l1, l2, hd0) ptr l1)) l1)) (Field_next l1)
      else merge_from (assign (assign (h, l1, l2, hd0) ptr l2) Var_l2
                         (nxt (fst (assign (h, l1, l2, hd0) ptr l2)) l2)) (Field_next l2))"
  unfolding merge_from_def using assms
  by (subst merge_two_lists_loop.simps) (cases ptr; simp add: payload_def Let_def store_next_def)

lemma merge_two_lists_from:
  "merge_two_lists h l1 l2 =
     map_option (\<lambda>(h2, a, b, hd2). (h2, hd2)) (merge_from (h, l1, l2, NULL) Var_head)"
  unfolding merge_two_lists_def merge_from_def
  by (cases "merge_two_lists_loop (h, l1, l2, NULL) Var_head") (auto split: prod.splits)

lemma next_kept_refl [simp]: "next_kept h h S"
  by (simp add: next_kept_def)

lemma next_kept_trans:
  "next_kept h h1 S \<Longrightarrow> next_kept h1 h2 T \<Longrightarrow> S \<subseteq> U \<Longrightarrow> T \<subseteq> U \<Longrightarrow> next_kept h h2 U"
  unfolding next_kept_def by (metis subsetD)

lemma next_kept_payload: "next_kept h h' S \<Longrightarrow> payload h' = payload h"
  by (simp add: next_kept_def payload_def fun_eq_iff)

lemma next_kept_store [simp]: "next_kept h (store_next h p v) S = (p \<in> S \<or> v = nxt h p)"
  by (auto simp: next_kept_def store_next_def)

lemma next_kept_chain:
  "next_kept h h' S \<Longrightarrow> set ps \<inter> S = {} \<Longrightarrow> chain (nxt h') p ps = chain (nxt h) p ps"
  by (rule chain_cong) (auto simp: next_kept_def)

lemma merge_from_chain:
  assumes "payload h = key" "chain (nxt h) l1 as" "chain (nxt h) l2 bs" "set as \<inter> set bs = {}"
    "loc_ok ptr (set as \<union> set bs)"
  shows "\<exists>h' a b hd'. merge_from (h, l1, l2, hd0) ptr = Some (h', a, b, hd') \<and>
           chain (nxt h') (deref (h', a, b, hd') ptr) (merge_by key as bs) \<and>
           next_kept h h' (set as \<union> set bs \<union> loc_set ptr) \<and>
           (ptr \<noteq> Var_head \<longrightarrow> hd' = hd0)"
  using assms
proof (induction key as bs arbitrary: h l1 l2 hd0 ptr rule: merge_by.induct)
  case (1 key ys)
  then have "l1 = NULL" by simp
  then show ?case using 1
    by (cases ptr) (auto simp: merge_from_stop store_next_def next_kept_def)
next
  case (2 key x xs)
  then have "l2 = NULL" by simp
  then show ?case using 2
    by (cases ptr) (auto simp: merge_from_stop store_next_def next_kept_def)
next
  case (3 key x xs y ys)
  have l: "l1 = x" "l2 = y" "x \<noteq> NULL" "y \<noteq> NULL" using 3(4,5) by auto
  have cx: "chain (nxt h) (nxt h x) xs" and cy: "chain (nxt h) (nxt h y) ys" using 3(4,5) by auto
  have dx: "x \<notin> set xs" "y \<notin> set ys" using cx cy by (auto dest: chain_not_in_tail)
  have dj: "x \<noteq> y" "x \<notin> set ys" "y \<notin> set xs" "set xs \<inter> set ys = {}" using 3(6) by auto
  have ok: "loc_ok ptr {l1, l2}" using 3(7) l by (cases ptr) auto
  show ?case
  proof (cases "strcmp (key x) (key y) \<le> 0")
    case True
    obtain h1 hd1 where s1: "assign (h, x, y, hd0) ptr x = (h1, x, y, hd1)"
      using 3(7) by (cases ptr) auto
    have k1: "next_kept h h1 (loc_set ptr)" "deref (h1, x, y, hd1) ptr = x"
      "ptr \<noteq> Var_head \<longrightarrow> hd1 = hd0"
      using s1 3(7) by (cases ptr; auto simp: store_next_def next_kept_def)+
    have n1: "nxt h1 x = nxt h x" using k1(1) 3(7) by (cases ptr) (auto simp: next_kept_def)
    have p1: "payload h1 = key" using k1(1) 3(3) by (simp add: next_kept_payload)
    have c1: "chain (nxt h1) (nxt h x) xs" "chain (nxt h1) y (y # ys)"
      using cx 3(5) 3(7) k1(1) l next_kept_chain [OF k1(1), of xs] next_kept_chain [OF k1(1), of "y # ys"]
      by (cases ptr; auto)+
    have "set xs \<inter> set (y # ys) = {}" "loc_ok (Field_next x) (set xs \<union> set (y # ys))"
      using dx dj by auto
    from "3.IH"(1) [OF True p1 c1 this, of hd1]
    obtain h' a b hd' where r:
      "merge_from (h1, nxt h x, y, hd1) (Field_next x) = Some (h', a, b, hd')"
      "chain (nxt h') (nxt h' x) (merge_by key xs (y # ys))"
      "next_kept h1 h' (set xs \<union> set (y # ys) \<union> {x})" "hd' = hd1"
      by auto
    have step: "merge_from (h, l1, l2, hd0) ptr = Some (h', a, b, hd')"
      using merge_from_step [OF _ _ ok, of h hd0] l True 3(3) s1 n1 r(1) by simp
    have "deref (h', a, b, hd') ptr = x"
      using k1(2) r(3,4) 3(7) dx dj by (cases ptr) (auto simp: next_kept_def)
    then have "chain (nxt h') (deref (h', a, b, hd') ptr) (merge_by key (x # xs) (y # ys))"
      using True r(2) l by simp
    moreover have "next_kept h h' (set (x # xs) \<union> set (y # ys) \<union> loc_set ptr)"
      using k1(1) r(3) by (rule next_kept_trans) auto
    ultimately show ?thesis using step k1(3) r(4) l by auto
  next
    case False
    obtain h1 hd1 where s1: "assign (h, x, y, hd0) ptr y = (h1, x, y, hd1)"
      using 3(7) by (cases ptr) auto
    have k1: "next_kept h h1 (loc_set ptr)" "deref (h1, x, y, hd1) ptr = y"
      "ptr \<noteq> Var_head \<longrightarrow> hd1 = hd0"
      using s1 3(7) by (cases ptr; auto simp: store_next_def next_kept_def)+
    have n1: "nxt h1 y = nxt h y" using k1(1) 3(7) by (cases ptr) (auto simp: next_kept_def)
    have p1: "payload h1 = key" using k1(1) 3(3) by (simp add: next_kept_payload)
    have c1: "chain (nxt h1) x (x # xs)" "chain (nxt h1) (nxt h y) ys"
      using cy 3(4) 3(7) k1(1) l next_kept_chain [OF k1(1), of ys] next_kept_chain [OF k1(1), of "x # xs"]
      by (cases ptr; auto)+
    have "set (x # xs) \<inter> set ys = {}" "loc_ok (Field_next y) (set (x # xs) \<union> set ys)"
      using dx dj by auto
    from "3.IH"(2) [OF False p1 c1 this, of hd1]
    obtain h' a b hd' where r:
      "merge_from (h1, x, nxt h y, hd1) (Field_next y) = Some (h', a, b, hd')"
      "chain (nxt h') (nxt h' y) (merge_by key (x # xs) ys)"
      "next_kept h1 h' (set (x # xs) \<union> set ys \<union> {y})" "hd' = hd1"
      by auto
    have step: "merge_from (h, l1, l2, hd0) ptr = Some (h', a, b, hd')"
      using merge_from_step [OF _ _ ok, of h hd0] l False 3(3) s1 n1 r(1) by simp
    have "deref (h', a, b, hd') ptr = y"
      using k1(2) r(3,4) 3(7) dx dj by (cases ptr) (auto simp: next_kept_def)
    then have "chain (nxt h') (deref (h', a, b, hd') ptr) (merge_by key (x # xs) (y # ys))"
      using False r(2) l by simp
    moreover have "next_kept h h' (set (x # xs) \<union> set (y # ys) \<union> loc_set ptr)"
      using k1(1) r(3) by (rule next_kept_trans) auto
    ultimately show ?thesis using step k1(3) r(4) l by auto
  qed
qed

lemma merge_two_lists_chain:
  assumes "chain (nxt h) l1 as" "chain (nxt h) l2 bs" "set as \<inter> set bs = {}"
  shows "\<exists>h' p. merge_two_lists h l1 l2 = Some (h', p) \<and>
           chain (nxt h') p (merge_by (payload h) as bs) \<and>
           next_kept h h' (set as \<union> set bs)"
proof -
  from merge_from_chain [OF refl assms, of Var_head NULL]
  obtain h' a b hd' where
    "merge_from (h, l1, l2, NULL) Var_head = Some (h', a, b, hd')"
    "chain (nxt h') hd' (merge_by (payload h) as bs)" "next_kept h h' (set as \<union> set bs)"
    by auto
  then show ?thesis by (simp add: merge_two_lists_from)
qed

lemma merge_sort_loop_chain:
  assumes "chain (nxt h) p ps"
  shows "2 * k + 1 \<le> length ps \<Longrightarrow>
    merge_sort_loop h ((ps @ [NULL]) ! (2 * k + 1)) (ps ! k) = Some (ps ! ((length ps - 1) div 2))"
proof (induction "length ps - 2 * k" arbitrary: k rule: less_induct)
  case less
  let ?c = "ps @ [NULL]"
  note nth = chain_nth [OF assms]
  consider "2 * k + 1 = length ps" | "2 * k + 2 = length ps" | "2 * k + 3 \<le> length ps"
    using less.prems by linarith
  then show ?case
  proof cases
    case 1
    then have "?c ! (2 * k + 1) = NULL" by (simp add: nth_append)
    moreover have "(length ps - 1) div 2 = k" using 1 by simp
    ultimately show ?thesis by (subst merge_sort_loop.simps) simp
  next
    case 2
    then have f: "?c ! (2 * k + 1) = ps ! (2 * k + 1)" by (simp add: nth_append)
    have "nxt h (ps ! (2 * k + 1)) = ?c ! Suc (2 * k + 1)" using nth [of "2 * k + 1"] 2 by simp
    then have "nxt h (ps ! (2 * k + 1)) = NULL" using 2 by (simp add: nth_append)
    moreover have "(length ps - 1) div 2 = k" using 2 by simp
    ultimately show ?thesis unfolding f by (subst merge_sort_loop.simps) simp
  next
    case 3
    then have f: "?c ! (2 * k + 1) = ps ! (2 * k + 1)" by (simp add: nth_append)
    have a: "ps ! (2 * k + 1) \<noteq> NULL" using nth [of "2 * k + 1"] 3 by simp
    have n1: "nxt h (ps ! (2 * k + 1)) = ps ! (2 * k + 2)"
      using nth [of "2 * k + 1"] 3 by (simp add: nth_append)
    have b: "ps ! (2 * k + 2) \<noteq> NULL" using nth [of "2 * k + 2"] 3 by simp
    have n2: "nxt h (ps ! (2 * k + 2)) = ?c ! (2 * Suc k + 1)"
      using nth [of "2 * k + 2"] 3 by simp
    have n3: "nxt h (ps ! k) = ps ! Suc k" using nth [of k] 3 by (simp add: nth_append)
    have "merge_sort_loop h (?c ! (2 * Suc k + 1)) (ps ! Suc k) = Some (ps ! ((length ps - 1) div 2))"
      using 3 by (intro less.hyps) auto
    then show ?thesis unfolding f using a b n1 n2 n3
      by (subst merge_sort_loop.simps) simp
  qed
qed

lemma merge_sort_short:
  assumes "chain (nxt h) p ps" "length ps \<le> 1"
  shows "merge_sort lf h p = Some (h, p)"
proof (cases ps)
  case Nil
  then show ?thesis using assms by (subst merge_sort.simps) simp
next
  case (Cons a as)
  then have "as = []" using assms(2) by simp
  then show ?thesis using assms Cons by (subst merge_sort.simps) simp
qed

lemma merge_sort_chain:
  assumes "chain (nxt h) p ps"
  shows "\<exists>h' p'. merge_sort lf h p = Some (h', p') \<and>
           chain (nxt h') p' (msort_by (payload h) ps) \<and> next_kept h h' (set ps)"
  using assms
proof (induction "length ps" arbitrary: ps h p rule: less_induct)
  case less
  show ?case
  proof (cases "length ps \<le> 1")
    case True
    then show ?thesis using less.prems merge_sort_short [OF less.prems True]
      by (simp add: msort_by_short)
  next
    case False
    let ?n = "length ps"
    let ?m = "(?n + 1) div 2"
    let ?as = "take ?m ps"
    let ?bs = "drop ?m ps"
    define slow where "slow = ps ! ((?n - 1) div 2)"
    define h1 where "h1 = store_next h slow NULL"
    have n2: "2 \<le> ?n" using False by simp
    have m: "0 < ?m" "?m < ?n" "?m - 1 = (?n - 1) div 2" using n2 by auto
    have ps: "ps = ?as @ ?bs" by simp
    have ne: "?as \<noteq> []" using m n2 by auto
    have "last ?as = ?as ! (length ?as - 1)" using ne by (rule last_conv_nth)
    moreover have "length ?as = ?m" using m by simp
    moreover have "?as ! (?m - 1) = ps ! (?m - 1)" using m by simp
    ultimately have la: "last ?as = slow"
      unfolding slow_def using m(3) by simp
    note nth = chain_nth [OF less.prems]
    have p0: "p = ps ! 0" "p \<noteq> NULL" using less.prems n2 by (cases ps; auto)+
    have p1: "nxt h p = (ps @ [NULL]) ! (2 * 0 + 1)" "nxt h p \<noteq> NULL"
      using nth [of 0] nth [of 1] n2 p0 \<open>?as \<noteq> []\<close> by (auto simp: nth_append)
    have loop: "merge_sort_loop h (nxt h p) p = Some slow"
    proof -
      have "merge_sort_loop h ((ps @ [NULL]) ! (2 * 0 + 1)) (ps ! 0) = Some slow"
        unfolding slow_def using n2 by (intro merge_sort_loop_chain [OF less.prems]) simp
      then show ?thesis unfolding p1(1) [symmetric] p0(1) [symmetric] .
    qed
    have sp: "chain (nxt h1) p ?as" "chain (nxt h1) (nxt h slow) ?bs"
      using chain_split [of "nxt h" p ?as ?bs] less.prems ne la
      by (simp_all add: h1_def store_next_def)
    have k1: "next_kept h h1 (set ps)"
      using m by (simp add: h1_def slow_def)
    have pl1: "payload h1 = payload h" using k1 by (rule next_kept_payload)
    have d: "distinct ps" using less.prems by (rule chain_distinct)
    have dj: "set ?as \<inter> set ?bs = {}"
      using d by (subst (asm) ps) (simp only: distinct_append)
    have sub: "set ?as \<subseteq> set ps" "set ?bs \<subseteq> set ps"
      by (auto dest: in_set_takeD in_set_dropD)
    have len: "length ?as < ?n" "length ?bs < ?n" using m by auto
    have unfold: "merge_sort lf h p =
       (if lf then do {
          (h2, a) \<leftarrow> merge_sort lf h1 p;
          (h3, b) \<leftarrow> merge_sort lf h2 (nxt h slow);
          merge_two_lists h3 a b }
        else do {
          (h2, b) \<leftarrow> merge_sort lf h1 (nxt h slow);
          (h3, a) \<leftarrow> merge_sort lf h2 p;
          merge_two_lists h3 a b })"
      using p0 p1 loop by (subst merge_sort.simps) (simp add: h1_def)
    have target: "msort_by (payload h) ps =
        merge_by (payload h) (msort_by (payload h) ?as) (msort_by (payload h) ?bs)"
      using False by (rule msort_by_long)
    show ?thesis
    proof (cases lf)
      case True
      from less.hyps [OF len(1) sp(1), of ] obtain h2 a where r2:
        "merge_sort lf h1 p = Some (h2, a)" "chain (nxt h2) a (msort_by (payload h) ?as)"
        "next_kept h1 h2 (set ?as)"
        unfolding pl1 by blast
      have pl2: "payload h2 = payload h" using r2(3) pl1 by (simp add: next_kept_payload)
      have c2: "chain (nxt h2) (nxt h slow) ?bs"
        using next_kept_chain [OF r2(3), of ?bs] sp(2) dj by (simp add: Int_commute)
      from less.hyps [OF len(2) c2] obtain h3 b where r3:
        "merge_sort lf h2 (nxt h slow) = Some (h3, b)" "chain (nxt h3) b (msort_by (payload h) ?bs)"
        "next_kept h2 h3 (set ?bs)"
        unfolding pl2 by blast
      have pl3: "payload h3 = payload h" using r3(3) pl2 by (simp add: next_kept_payload)
      have c3: "chain (nxt h3) a (msort_by (payload h) ?as)"
        using next_kept_chain [OF r3(3), of "msort_by (payload h) ?as"] r2(2) dj by simp
      have "set (msort_by (payload h) ?as) \<inter> set (msort_by (payload h) ?bs) = {}"
        using dj by simp
      from merge_two_lists_chain [OF c3 r3(2) this] obtain h4 q where r4:
        "merge_two_lists h3 a b = Some (h4, q)"
        "chain (nxt h4) q (msort_by (payload h) ps)"
        "next_kept h3 h4 (set ?as \<union> set ?bs)"
        unfolding pl3 target by auto
      have "next_kept h h2 (set ps)" using k1 r2(3) by (rule next_kept_trans) (use sub in auto)
      then have "next_kept h h3 (set ps)" using r3(3) by (rule next_kept_trans) (use sub in auto)
      then have "next_kept h h4 (set ps)" using r4(3) by (rule next_kept_trans) (use sub in auto)
      then show ?thesis using True r2(1) r3(1) r4(1,2) unfolding unfold by simp
    next
      case False
      from less.hyps [OF len(2) sp(2)] obtain h2 b where r2:
        "merge_sort lf h1 (nxt h slow) = Some (h2, b)" "chain (nxt h2) b (msort_by (payload h) ?bs)"
        "next_kept h1 h2 (set ?bs)"
        unfolding pl1 by blast
      have pl2: "payload h2 = payload h" using r2(3) pl1 by (simp add: next_kept_payload)
      have c2: "chain (nxt h2) p ?as"
        using next_kept_chain [OF r2(3), of ?as] sp(1) dj by simp
      from less.hyps [OF len(1) c2] obtain h3 a where r3:
        "merge_sort lf h2 p = Some (h3, a)" "chain (nxt h3) a (msort_by (payload h) ?as)"
        "next_kept h2 h3 (set ?as)"
        unfolding pl2 by blast
      have pl3: "payload h3 = payload h" using r3(3) pl2 by (simp add: next_kept_payload)
      have c3: "chain (nxt h3) b (msort_by (payload h) ?bs)"
        using next_kept_chain [OF r3(3), of "msort_by (payload h) ?bs"] r2(2) dj
        by (simp add: Int_commute)
      have "set (msort_by (payload h) ?as) \<inter> set (msort_by (payload h) ?bs) = {}"
        using dj by simp
      from merge_two_lists_chain [OF r3(2) c3 this] obtain h4 q where r4:
        "merge_two_lists h3 a b = Some (h4, q)"
        "chain (nxt h4) q (msort_by (payload h) ps)"
        "next_kept h3 h4 (set ?as \<union> set ?bs)"
        unfolding pl3 target by auto
      have "next_kept h h2 (set ps)" using k1 r2(3) by (rule next_kept_trans) (use sub in auto)
      then have "next_kept h h3 (set ps)" using r3(3) by (rule next_kept_trans) (use sub in auto)
      then have "next_kept h h4 (set ps)" using r4(3) by (rule next_kept_trans) (use sub in auto)
      then show ?thesis using False r2(1) r3(1) r4(1,2) unfolding unfold by simp
    qed
  qed
qed

lemma sint_of_nat_small:
  "n < 2 ^ 31 \<Longrightarrow> sint (of_nat n :: 32 word) = int n"
proof -
  assume a: "n < 2 ^ 31"
  have "signed_take_bit (31 :: nat) (int n) = int n"
    by (rule signed_take_bit_int_eq_self) (use a in auto)
  then show ?thesis by (simp add: signed_of_nat)
qed

lemma q_size_loop_ring:
  assumes "ring h head ps"
  shows "k \<le> length ps \<Longrightarrow>
    q_size_loop h head ((ps @ [head]) ! k) (of_nat k) = Some (of_nat (length ps))"
proof (induction "length ps - k" arbitrary: k rule: less_induct)
  case less
  show ?case
  proof (cases "k = length ps")
    case True
    then show ?thesis by (subst q_size_loop.simps) (simp add: nth_append)
  next
    case False
    then have k: "k < length ps" using less.prems by simp
    have a: "(ps @ [head]) ! k \<noteq> head" using ring_nth_head [OF assms, of k] k by simp
    have n: "nxt h ((ps @ [head]) ! k) = (ps @ [head]) ! Suc k"
      using ring_nxt_nth [OF assms k] k by (simp add: nth_append)
    have "q_size_loop h head ((ps @ [head]) ! Suc k) (of_nat (Suc k)) = Some (of_nat (length ps))"
      using k by (intro less.hyps) auto
    then show ?thesis using a n by (subst q_size_loop.simps) (simp add: add.commute)
  qed
qed

lemma q_size_ring:
  assumes "ring h head ps"
  shows "q_size h head = Some (of_nat (length ps))"
proof (cases ps)
  case Nil
  then show ?thesis using ring_empty [OF assms] by (simp add: q_size_def)
next
  case (Cons a as)
  have "head \<noteq> NULL" using assms by (simp add: ring_def)
  moreover have "nxt h head = (ps @ [head]) ! 0" using assms by (rule ring_nxt_head)
  moreover have "q_size_loop h head ((ps @ [head]) ! 0) (of_nat 0) = Some (of_nat (length ps))"
    by (rule q_size_loop_ring [OF assms]) simp
  ultimately show ?thesis using ring_empty [OF assms] Cons by (simp add: q_size_def)
qed

lemma path_to_chain:
  "path f x ps y \<Longrightarrow> distinct ps \<Longrightarrow> NULL \<notin> set ps \<Longrightarrow> ps \<noteq> [] \<Longrightarrow>
   chain (f(last ps := NULL)) (f x) ps"
proof (induction ps arbitrary: x)
  case Nil
  then show ?case by simp
next
  case (Cons a as)
  show ?case
  proof (cases as)
    case Nil
    then show ?thesis using Cons.prems by simp
  next
    case (Cons b bs)
    then have ne: "as \<noteq> []" by simp
    have ih: "chain (f(last as := NULL)) (f a) as"
      using Cons.prems ne by (intro Cons.IH) auto
    have "a \<noteq> last as" using Cons.prems ne last_in_set [of as] by auto
    then have fa: "(f(last as := NULL)) a = f a" by simp
    have l: "last (a # as) = last as" using ne by simp
    have "f x = a" "a \<noteq> NULL" using Cons.prems by auto
    then show ?thesis unfolding l chain.simps fa using ih by simp
  qed
qed

lemma chain_to_path:
  "chain f p ps \<Longrightarrow> ps \<noteq> [] \<Longrightarrow> x \<notin> set ps \<Longrightarrow> f x = p \<Longrightarrow>
   path (f(last ps := y)) x ps y"
proof (induction ps arbitrary: x p)
  case Nil
  then show ?case by simp
next
  case (Cons a as)
  have na: "a \<notin> set as" using Cons.prems(1) by (auto dest: chain_not_in_tail)
  show ?case
  proof (cases as)
    case Nil
    then show ?thesis using Cons.prems by auto
  next
    case (Cons b bs)
    then have ne: "as \<noteq> []" by simp
    have ih: "path (f(last as := y)) a as y"
      using Cons.prems(1) ne na by (intro Cons.IH [of "f a"]) auto
    have "x \<noteq> last as"
      using Cons.prems(3) ne last_in_set [of as] by auto
    then have fx: "(f(last as := y)) x = f x" by simp
    have l: "last (a # as) = last as" using ne by simp
    have "f x = a" using Cons.prems by auto
    then show ?thesis unfolding l path.simps fx using ih by simp
  qed
qed

lemma q_sort_loop_chain:
  assumes "chain (nxt h) (nxt h n) qs"
  shows "\<exists>h'. q_sort_loop h n = Some (h', last (n # qs)) \<and>
           nxt h' = nxt h \<and> val h' = val h \<and> str h' = str h \<and> allocd h' = allocd h \<and>
           (\<forall>x. x \<notin> set qs \<longrightarrow> prv h' x = prv h x) \<and>
           (qs \<noteq> [] \<longrightarrow> path (prv h') (last qs) (tl (rev qs)) n)"
  using assms
proof (induction qs arbitrary: h n)
  case Nil
  then show ?case by (subst q_sort_loop.simps) simp
next
  case (Cons q qs)
  define h1 where "h1 = store_prev h q n"
  have q: "nxt h n = q" "q \<noteq> NULL" "chain (nxt h) (nxt h q) qs" using Cons.prems by auto
  have nq: "q \<notin> set qs" using q(3) by (rule chain_not_in_tail)
  have "chain (nxt h1) (nxt h1 q) qs" using q(3) by (simp add: h1_def store_prev_def)
  from Cons.IH [OF this] obtain h' where h':
    "q_sort_loop h1 q = Some (h', last (q # qs))"
    "nxt h' = nxt h1" "val h' = val h1" "str h' = str h1" "allocd h' = allocd h1"
    "\<forall>x. x \<notin> set qs \<longrightarrow> prv h' x = prv h1 x"
    "qs \<noteq> [] \<longrightarrow> path (prv h') (last qs) (tl (rev qs)) q"
    by blast
  have run: "q_sort_loop h n = Some (h', last (n # q # qs))"
    using q h'(1) by (subst q_sort_loop.simps) (simp add: h1_def)
  have pq: "prv h' q = n" using h'(6) nq by (simp add: h1_def store_prev_def)
  have p: "path (prv h') (last (q # qs)) (tl (rev (q # qs))) n"
  proof (cases "qs = []")
    case True
    then show ?thesis using pq by simp
  next
    case False
    then have "tl (rev qs @ [q]) = tl (rev qs) @ [q]" by simp
    then show ?thesis using False h'(7) pq by simp
  qed
  have f: "\<forall>x. x \<notin> set (q # qs) \<longrightarrow> prv h' x = prv h x"
    using h'(6) by (simp add: h1_def store_prev_def)
  show ?case
    using run p f h'(2-5) by (simp add: h1_def store_prev_def)
qed

lemma q_sort_ring:
  assumes "ring h head ps" "length ps < 2 ^ 31"
  shows "\<exists>h'. q_sort lf h head = Some h' \<and> ring h' head (msort_by (payload h) ps) \<and>
           val h' = val h \<and> str h' = str h \<and> allocd h' = allocd h"
proof (cases "length ps \<le> 1")
  case True
  have "sint (of_nat (length ps) :: 32 word) \<le> 1"
    using True sint_of_nat_small [OF assms(2)] by simp
  then have "q_sort lf h head = Some h"
    by (simp add: q_sort_def q_size_ring [OF assms(1)])
  then show ?thesis using True assms(1) by (simp add: msort_by_short)
next
  case False
  let ?ps' = "msort_by (payload h) ps"
  define h1 where "h1 = store_next h (prv h head) NULL"
  have sz: "\<not> sint (of_nat (length ps) :: 32 word) \<le> 1"
    using False sint_of_nat_small [OF assms(2)] by simp
  have ne: "ps \<noteq> []" using False by auto
  have r: "head \<noteq> NULL" "NULL \<notin> set ps" "distinct ps" "head \<notin> set ps"
    "path (nxt h) head ps head" "path (prv h) head (rev ps) head"
    using assms(1) by (auto simp: ring_def)
  have pl: "prv h head = last ps"
    using r(6) ne path_first [of "prv h" head "rev ps" head] by (simp add: hd_rev)
  have c1: "chain (nxt h1) (nxt h head) ps"
    using path_to_chain [OF r(5,3,2) ne] by (simp add: h1_def store_next_def pl)
  have k1: "next_kept h h1 (set ps)" using ne by (simp add: h1_def pl)
  have pl1: "payload h1 = payload h" using k1 by (rule next_kept_payload)
  from merge_sort_chain [OF c1, of lf] obtain h2 l where m:
    "merge_sort lf h1 (nxt h head) = Some (h2, l)" "chain (nxt h2) l ?ps'" "next_kept h1 h2 (set ps)"
    unfolding pl1 by blast
  define h3 where "h3 = store_next h2 head l"
  have ne': "?ps' \<noteq> []" using ne by (metis length_msort_by length_0_conv)
  have s': "set ?ps' = set ps" by simp
  have c3: "chain (nxt h3) (nxt h3 head) ?ps'"
    using m(2) r(4) by (simp add: h3_def store_next_def)
  from q_sort_loop_chain [OF c3] ne' obtain h4 where l4:
    "q_sort_loop h3 head = Some (h4, last ?ps')"
    "nxt h4 = nxt h3" "val h4 = val h3" "str h4 = str h3" "allocd h4 = allocd h3"
    "\<forall>x. x \<notin> set ps \<longrightarrow> prv h4 x = prv h3 x"
    "path (prv h4) (last ?ps') (tl (rev ?ps')) head"
    by auto
  define h6 where "h6 = store_next (store_prev h4 head (last ?ps')) (last ?ps') head"
  have run: "q_sort lf h head = Some h6"
    using sz m(1) l4(1)
    by (simp add: q_sort_def q_size_ring [OF assms(1)] h1_def h3_def h6_def)
  have lin: "last ?ps' \<in> set ps" using last_in_set [OF ne'] by simp
  have hl: "head \<noteq> last ?ps'" using lin r(4) by auto
  have c3': "chain (nxt h3) l ?ps'" and n3: "nxt h3 head = l"
    using m(2) r(4) by (simp_all add: h3_def store_next_def)
  have hn: "head \<notin> set ?ps'" using r(4) by simp
  have n6: "path (nxt h6) head ?ps' head"
    using chain_to_path [OF c3' ne' hn n3, where y = head]
    by (simp add: h6_def store_next_def store_prev_def l4(2))
  define t where "t = tl (rev ?ps')"
  have rv: "rev ?ps' = last ?ps' # t"
    unfolding t_def using ne' by (metis hd_rev list.collapse rev_is_Nil_conv)
  have ht: "head \<notin> set t"
    using hn rv by (metis list.set_intros(2) set_rev)
  have "path (prv h4) (last ?ps') t head" using l4(7) by (simp only: t_def)
  then have "path (prv h6) head (last ?ps' # t) head"
    using hl ht by (simp add: h6_def store_next_def store_prev_def)
  then have p6: "path (prv h6) head (rev ?ps') head" unfolding rv .
  have d: "distinct ?ps'" using m(2) by (rule chain_distinct)
  have "ring h6 head ?ps'"
    using r(1,2) hn d n6 p6 by (simp add: ring_def)
  moreover have "val h6 = val h" "str h6 = str h" "allocd h6 = allocd h"
    using l4(3-5) m(3) k1
    by (simp_all add: h6_def h3_def store_next_def store_prev_def next_kept_def)
  ultimately show ?thesis using run by simp
qed

lemma q_sort_short:
  assumes "ring h head ps" "length ps \<le> 1"
  shows "q_sort lf h head = Some h"
proof -
  have "length ps < 2 ^ 31" using assms(2) by simp
  then have "sint (of_nat (length ps) :: 32 word) \<le> 1"
    using assms(2) sint_of_nat_small [of "length ps"] by simp
  then show ?thesis by (simp add: q_sort_def q_size_ring [OF assms(1)])
qed

lemma q_sort_null: "q_sort lf h NULL = Some h"
  by (simp add: q_sort_def q_size_def)

lemma sorted_wrt_adjacent:
  "sorted_wrt P xs \<Longrightarrow> Suc i < length xs \<Longrightarrow> P (xs ! i) (xs ! Suc i)"
  by (simp add: sorted_wrt_iff_nth_less)

text \<open>
  C1. On a queue with the elements \<open>ps\<close> (fewer than \<open>2^31\<close>, so that the \<^verbatim>\<open>int\<close>
  counter of \<^verbatim>\<open>q_size\<close> does not overflow) \<^verbatim>\<open>q_sort\<close> returns with the queue
  \<open>msort_by (payload h) ps\<close>, whatever the order in which the compiler evaluates the two
  recursive calls: every element is followed by one whose payload is not smaller under
  \<^verbatim>\<open>strcmp\<close>, the elements and so the payloads are the same multiset, and no payload or
  allocation changes. A null handle and a queue of at most one element are left as they are.
\<close>

theorem q_sort_sorts:
  "q_sort lf h NULL = Some h \<and>
   (ring h head ps \<and> length ps \<le> 1 \<longrightarrow> q_sort lf h head = Some h) \<and>
   (ring h head ps \<and> length ps < 2 ^ 31 \<longrightarrow>
      (\<exists>h'. q_sort lf h head = Some h' \<and>
            ring h' head (msort_by (payload h) ps) \<and>
            (\<forall>i. Suc i < length ps \<longrightarrow>
               strcmp (payload h' (msort_by (payload h) ps ! i))
                      (payload h' (msort_by (payload h) ps ! Suc i)) \<le> 0) \<and>
            ascending h' (msort_by (payload h) ps) \<and>
            mset (map (payload h') (msort_by (payload h) ps)) = mset (map (payload h) ps) \<and>
            mset (msort_by (payload h) ps) = mset ps \<and>
            val h' = val h \<and> str h' = str h \<and> allocd h' = allocd h))"
proof (intro conjI impI)
  show "q_sort lf h NULL = Some h" by (rule q_sort_null)
  show "q_sort lf h head = Some h" if "ring h head ps \<and> length ps \<le> 1"
    using that q_sort_short by blast
  assume a: "ring h head ps \<and> length ps < 2 ^ 31"
  then obtain h' where h': "q_sort lf h head = Some h'" "ring h' head (msort_by (payload h) ps)"
    "val h' = val h" "str h' = str h" "allocd h' = allocd h"
    using q_sort_ring [of h head ps lf] by blast
  have pl: "payload h' = payload h" using h'(3,4) by (simp add: payload_def fun_eq_iff)
  have s: "sorted_wrt (\<lambda>a b. strcmp (payload h a) (payload h b) \<le> 0) (msort_by (payload h) ps)"
    by (rule sorted_msort_by)
  have adj: "strcmp (payload h (msort_by (payload h) ps ! i))
                    (payload h (msort_by (payload h) ps ! Suc i)) \<le> 0"
    if "Suc i < length ps" for i
    using sorted_wrt_adjacent [OF s, of i] that by simp
  have m: "mset (map (payload h) (msort_by (payload h) ps)) = mset (map (payload h) ps)"
    by (metis mset_map mset_msort_by)
  show "\<exists>h'. q_sort lf h head = Some h' \<and>
            ring h' head (msort_by (payload h) ps) \<and>
            (\<forall>i. Suc i < length ps \<longrightarrow>
               strcmp (payload h' (msort_by (payload h) ps ! i))
                      (payload h' (msort_by (payload h) ps ! Suc i)) \<le> 0) \<and>
            ascending h' (msort_by (payload h) ps) \<and>
            mset (map (payload h') (msort_by (payload h) ps)) = mset (map (payload h) ps) \<and>
            mset (msort_by (payload h) ps) = mset ps \<and>
            val h' = val h \<and> str h' = str h \<and> allocd h' = allocd h"
    using h' s adj m by (auto simp: pl ascending_def)
qed

theorem q_sort_sorts_witness:
  "ring (queue_of [''c'', ''a'', ''b'']) 1 [2, 3, 4] \<and> length [2 :: ptr, 3, 4] < 2 ^ 31 \<and>
   msort_by (payload (queue_of [''c'', ''a'', ''b''])) [2, 3, 4] = [3, 4, 2] \<and>
   (\<exists>h'. q_sort True (queue_of [''c'', ''a'', ''b'']) 1 = Some h' \<and> ring h' 1 [3, 4, 2] \<and>
      map (payload h') [3, 4, 2] = [''a'', ''b'', ''c'']) \<and>
   ring (queue_of [''c'']) 1 [2] \<and> q_sort True (queue_of [''c'']) 1 = Some (queue_of [''c''])"
proof -
  let ?q = "queue_of [''c'', ''a'', ''b'']"
  have r: "ring ?q 1 [2, 3, 4]" by (simp add: ring_def queue_of_def)
  have l: "length [2 :: ptr, 3, 4] < 2 ^ 31" by simp
  have p: "payload ?q 2 = ''c''" "payload ?q 3 = ''a''" "payload ?q 4 = ''b''"
    by (simp_all add: payload_def queue_of_def)
  have ms: "msort_by (payload ?q) [2, 3, 4] = [3, 4, 2]"
    by (simp add: msort_by.simps p)
  note t = q_sort_sorts [of True ?q 1 "[2, 3, 4]", THEN conjunct2, THEN conjunct2, THEN mp,
      OF conjI [OF r l], unfolded ms]
  from t obtain h' where h': "q_sort True ?q 1 = Some h'" "ring h' 1 [3, 4, 2]"
    "val h' = val ?q" "str h' = str ?q"
    by (elim exE conjE)
  have "map (payload h') [3, 4, 2] = [''a'', ''b'', ''c'']"
    using p by (simp add: payload_def h'(3,4))
  then have ex: "\<exists>h'. q_sort True ?q 1 = Some h' \<and> ring h' 1 [3, 4, 2] \<and>
      map (payload h') [3, 4, 2] = [''a'', ''b'', ''c'']"
    using h'(1,2) by (intro exI [of _ h'] conjI)
  have r1: "ring (queue_of [''c'']) 1 [2]" by (simp add: ring_def queue_of_def)
  have l1: "length [2 :: ptr] \<le> 1" by simp
  note t1 = q_sort_sorts [of True "queue_of [''c'']" 1 "[2]", THEN conjunct2, THEN conjunct1,
      THEN mp, OF conjI [OF r1 l1]]
  show ?thesis using r l ms ex r1 t1 by (intro conjI)
qed

text \<open>
  C2. \<^verbatim>\<open>q_sort\<close> is stable: an element \<open>X\<close> that precedes an element \<open>Y\<close> with the same
  payload before the call precedes it after the call. The merge step takes the element of
  the first chain when the two front payloads are equal.
\<close>

theorem q_sort_stable:
  "(ring h head ps \<and> length ps < 2 ^ 31 \<and> payload h X = payload h Y \<and> precedes X Y ps \<longrightarrow>
      (\<exists>h'. q_sort lf h head = Some h' \<and> ring h' head (msort_by (payload h) ps) \<and>
            payload h' = payload h \<and> precedes X Y (msort_by (payload h) ps))) \<and>
   (chain (nxt h) l1 (a # as) \<and> chain (nxt h) l2 (b # bs) \<and> set (a # as) \<inter> set (b # bs) = {} \<and>
    payload h a = payload h b \<longrightarrow>
      (\<exists>h' p. merge_two_lists h l1 l2 = Some (h', p) \<and> p = a \<and>
             chain (nxt h') p (a # merge_by (payload h) as (b # bs))))"
proof (intro conjI impI)
  assume a: "ring h head ps \<and> length ps < 2 ^ 31 \<and> payload h X = payload h Y \<and> precedes X Y ps"
  then obtain h' where h': "q_sort lf h head = Some h'" "ring h' head (msort_by (payload h) ps)"
    "val h' = val h" "str h' = str h"
    using q_sort_ring [of h head ps lf] by blast
  have "payload h' = payload h" using h'(3,4) by (simp add: payload_def fun_eq_iff)
  moreover have "precedes X Y (msort_by (payload h) ps)"
    using a precedes_msort_by [of "payload h" X Y ps] by simp
  ultimately show "\<exists>h'. q_sort lf h head = Some h' \<and> ring h' head (msort_by (payload h) ps) \<and>
            payload h' = payload h \<and> precedes X Y (msort_by (payload h) ps)"
    using h'(1,2) by blast
next
  assume a: "chain (nxt h) l1 (a # as) \<and> chain (nxt h) l2 (b # bs) \<and>
    set (a # as) \<inter> set (b # bs) = {} \<and> payload h a = payload h b"
  then have c: "chain (nxt h) l1 (a # as)" "chain (nxt h) l2 (b # bs)"
    "set (a # as) \<inter> set (b # bs) = {}" and e: "payload h a = payload h b"
    by blast+
  from merge_two_lists_chain [OF c] obtain h' p where r:
    "merge_two_lists h l1 l2 = Some (h', p)"
    "chain (nxt h') p (merge_by (payload h) (a # as) (b # bs))"
    by blast
  have "merge_by (payload h) (a # as) (b # bs) = a # merge_by (payload h) as (b # bs)"
    using e by simp
  then show "\<exists>h' p. merge_two_lists h l1 l2 = Some (h', p) \<and> p = a \<and>
             chain (nxt h') p (a # merge_by (payload h) as (b # bs))"
    using r by auto
qed

theorem q_sort_stable_witness:
  "ring (queue_of [''b'', ''a'', ''b'']) 1 [2, 3, 4] \<and> length [2 :: ptr, 3, 4] < 2 ^ 31 \<and>
   payload (queue_of [''b'', ''a'', ''b'']) 2 = payload (queue_of [''b'', ''a'', ''b'']) 4 \<and>
   precedes 2 4 [2 :: ptr, 3, 4] \<and>
   msort_by (payload (queue_of [''b'', ''a'', ''b''])) [2, 3, 4] = [3, 2, 4] \<and>
   (\<exists>h'. q_sort False (queue_of [''b'', ''a'', ''b'']) 1 = Some h' \<and> ring h' 1 [3, 2, 4] \<and>
      precedes 2 4 [3 :: ptr, 2, 4]) \<and>
   chain (nxt two_chains) 1 [1, 2] \<and> chain (nxt two_chains) 3 [3, 4] \<and>
   payload two_chains 1 = payload two_chains 3 \<and>
   (\<exists>h' p. merge_two_lists two_chains 1 3 = Some (h', p) \<and> p = 1)"
proof -
  let ?q = "queue_of [''b'', ''a'', ''b'']"
  have r: "ring ?q 1 [2, 3, 4]" by (simp add: ring_def queue_of_def)
  have l: "length [2 :: ptr, 3, 4] < 2 ^ 31" by simp
  have p: "payload ?q 2 = ''b''" "payload ?q 3 = ''a''" "payload ?q 4 = ''b''"
    by (simp_all add: payload_def queue_of_def)
  have e: "payload ?q 2 = payload ?q 4" by (simp add: p)
  have pr: "precedes 2 4 [2 :: ptr, 3, 4]" by simp
  have ms: "msort_by (payload ?q) [2, 3, 4] = [3, 2, 4]"
    by (simp add: msort_by.simps p)
  note t = q_sort_stable [of ?q 1 "[2, 3, 4]" 2 4 False, THEN conjunct1, THEN mp,
      OF conjI [OF r conjI [OF l conjI [OF e pr]]], unfolded ms]
  from t obtain h' where "q_sort False ?q 1 = Some h'" "ring h' 1 [3, 2, 4]"
    "precedes 2 4 [3 :: ptr, 2, 4]"
    by (elim exE conjE)
  then have ex: "\<exists>h'. q_sort False ?q 1 = Some h' \<and> ring h' 1 [3, 2, 4] \<and>
      precedes 2 4 [3 :: ptr, 2, 4]"
    by (intro exI [of _ h'] conjI)
  have c1: "chain (nxt two_chains) 1 [1, 2]" and c2: "chain (nxt two_chains) 3 [3, 4]"
    by (simp_all add: two_chains_def)
  have dj: "set [1 :: ptr, 2] \<inter> set [3, 4] = {}" by simp
  have e2: "payload two_chains 1 = payload two_chains 3"
    by (simp add: payload_def two_chains_def)
  note m = q_sort_stable [of two_chains _ _ _ _ _ 1 1 "[2]" 3 3 "[4]", THEN conjunct2, THEN mp,
      OF conjI [OF c1 conjI [OF c2 conjI [OF dj e2]]]]
  from m obtain h2 p where "merge_two_lists two_chains 1 3 = Some (h2, p)" "p = 1"
    by (elim exE conjE)
  then have ex2: "\<exists>h' p. merge_two_lists two_chains 1 3 = Some (h', p) \<and> p = 1"
    by (intro exI [of _ h2] exI [of _ p] conjI)
  show ?thesis using r l e pr ms ex c1 c2 e2 ex2 by (intro conjI)
qed

section \<open>The ring invariants under every operation\<close>

lemma ring_symmetry:
  assumes "ring h head ps" "a \<in> set (head # ps)"
  shows "prv h (nxt h a) = a" "nxt h (prv h a) = a"
proof -
  from assms(2) [unfolded in_set_conv_decomp] obtain ds cs where d: "head # ps = ds @ a # cs"
    by blast
  show "prv h (nxt h a) = a"
    using ring_adjacent [OF assms(1) d] by simp
  show "nxt h (prv h a) = a"
  proof (cases ds rule: rev_cases)
    case Nil
    then have a: "a = head" "cs = ps" using d by simp_all
    obtain bs b where b: "head # ps = bs @ [b]"
      by (metis list.distinct(1) rev_exhaust)
    from ring_adjacent [OF assms(1) b] show ?thesis using a by simp
  next
    case (snoc bs b)
    then have "head # ps = bs @ b # a # cs" using d by simp
    from ring_adjacent [OF assms(1) this] show ?thesis by simp
  qed
qed

lemma q_remove_head_ring:
  fixes bufsize :: "'a::len word"
  assumes "ring h head ps"
    "sp = None \<or> (\<exists>buf. sp = Some buf \<and> bufsize \<noteq> 0 \<and> unat bufsize \<le> length buf)"
  shows "\<exists>h' e b. q_remove_head h head sp bufsize = Inr (h', e, b) \<and> ring h' head (tl ps)"
proof (cases ps)
  case Nil
  then show ?thesis using assms(1) ring_empty [OF assms(1)] by (simp add: q_remove_head_def)
next
  case (Cons a as)
  have hn: "head \<noteq> NULL" "\<not> list_empty h head" "nxt h head = a"
    using assms(1) ring_empty [OF assms(1)] Cons by (simp_all add: ring_def)
  have r: "ring (list_del h a) head as"
    using ring_del [of h head "[]" a as] assms(1) Cons by simp
  show ?thesis
  proof (cases sp)
    case None
    then show ?thesis using hn r Cons by (simp add: q_remove_head_def list_first_entry_def)
  next
    case (Some buf)
    then have "bufsize \<noteq> 0" "unat bufsize \<le> length buf" using assms(2) by auto
    from copy_out_pos [OF this] show ?thesis
      using hn r Cons Some by (simp add: q_remove_head_def list_first_entry_def Let_def)
  qed
qed

lemma q_remove_tail_ring:
  fixes bufsize :: "'a::len word"
  assumes "ring h head ps"
    "sp = None \<or> (\<exists>buf. sp = Some buf \<and> bufsize \<noteq> 0 \<and> unat bufsize \<le> length buf)"
  shows "\<exists>h' e b. q_remove_tail h head sp bufsize = Inr (h', e, b) \<and> ring h' head (butlast ps)"
proof (cases ps rule: rev_cases)
  case Nil
  then show ?thesis using assms(1) ring_empty [OF assms(1)] by (simp add: q_remove_tail_def)
next
  case (snoc as a)
  have hn: "head \<noteq> NULL" "\<not> list_empty h head" "prv h head = a"
    using assms(1) ring_empty [OF assms(1)] snoc by (simp_all add: ring_def)
  have r: "ring (list_del h a) head as"
    using ring_del [of h head as a "[]"] assms(1) snoc by simp
  show ?thesis
  proof (cases sp)
    case None
    then show ?thesis using hn r snoc by (simp add: q_remove_tail_def list_last_entry_def)
  next
    case (Some buf)
    then have "bufsize \<noteq> 0" "unat bufsize \<le> length buf" using assms(2) by auto
    from copy_out_pos [OF this] show ?thesis
      using hn r snoc Some by (simp add: q_remove_tail_def list_last_entry_def Let_def)
  qed
qed

lemma q_insert_ring:
  assumes "ring h head ps" "set (head # ps) \<subseteq> allocd h" "r1 = NULL \<or> r1 \<notin> allocd h"
  shows "ring (fst (q_insert_head h head s r1 r2)) head
           (if r1 \<noteq> NULL \<and> r2 \<noteq> NULL then r1 # ps else ps)"
    and "ring (fst (q_insert_tail h head s r1 r2)) head
           (if r1 \<noteq> NULL \<and> r2 \<noteq> NULL then ps @ [r1] else ps)"
proof -
  show "ring (fst (q_insert_head h head s r1 r2)) head
           (if r1 \<noteq> NULL \<and> r2 \<noteq> NULL then r1 # ps else ps)"
  proof (cases "r1 \<noteq> NULL \<and> r2 \<noteq> NULL")
    case True
    then show ?thesis using q_insert_head_ok [of h head ps r1 r2 s] assms by auto
  next
    case False
    then have "unchanged h (fst (q_insert_head h head s r1 r2))"
      using assms(3) by (intro q_insert_head_fail) auto
    then show ?thesis using False assms(1) unchanged_ring by auto
  qed
  show "ring (fst (q_insert_tail h head s r1 r2)) head
           (if r1 \<noteq> NULL \<and> r2 \<noteq> NULL then ps @ [r1] else ps)"
  proof (cases "r1 \<noteq> NULL \<and> r2 \<noteq> NULL")
    case True
    then show ?thesis using q_insert_tail_ok [of h head ps r1 r2 s] assms by auto
  next
    case False
    then have "unchanged h (fst (q_insert_tail h head s r1 r2))"
      using assms(3) by (intro q_insert_tail_fail) auto
    then show ?thesis using False assms(1) unchanged_ring by auto
  qed
qed

lemma q_delete_mid_keeps_ring:
  assumes "ring h head ps"
  shows "\<exists>h' r. q_delete_mid h head = Some (h', r) \<and>
           ring h' head (if ps = [] then [] else delete_nth (length ps div 2) ps)"
proof (cases "ps = []")
  case True
  then have "q_delete_mid h head = Some (h, False)" "ring h head []"
    using assms ring_empty [OF assms] by (simp_all add: q_delete_mid_def)
  then show ?thesis using True by (intro exI [of _ h] exI [of _ False]) simp
next
  case False
  then show ?thesis using q_delete_mid_ring [OF assms False] by auto
qed

text \<open>
  C6. A queue that satisfies the ring invariants (following \<^verbatim>\<open>next\<close> from the sentinel
  visits every element once and returns to the sentinel, following \<^verbatim>\<open>prev\<close> does so in
  reverse order, and the predecessor of the successor of a node is the node) satisfies them
  again after each of the nine operations, which all return: insertion at the head and at
  the tail (succeeding or failing, when the allocator hands out unused blocks), removal at
  the head and at the tail (without buffer or with a buffer of at least \<open>bufsize \<ge> 1\<close>
  bytes), \<^verbatim>\<open>q_delete_mid\<close>, \<^verbatim>\<open>q_delete_dup\<close>, \<^verbatim>\<open>q_swap\<close>, \<^verbatim>\<open>q_reverse\<close> and
  \<^verbatim>\<open>q_sort\<close> (on fewer than \<open>2^31\<close> elements). The elements of the new queue are given
  in each case.
\<close>

theorem ring_invariants_preserved:
  fixes bufsize :: "'a::len word"
  assumes "ring h head ps"
  shows
   "(path (nxt h) head ps head \<and> path (prv h) head (rev ps) head \<and> distinct (head # ps) \<and>
     (\<forall>a \<in> set (head # ps). prv h (nxt h a) = a)) \<and>
    (set (head # ps) \<subseteq> allocd h \<and> (r1 = NULL \<or> r1 \<notin> allocd h) \<longrightarrow>
       ring (fst (q_insert_head h head s r1 r2)) head
         (if r1 \<noteq> NULL \<and> r2 \<noteq> NULL then r1 # ps else ps) \<and>
       ring (fst (q_insert_tail h head s r1 r2)) head
         (if r1 \<noteq> NULL \<and> r2 \<noteq> NULL then ps @ [r1] else ps)) \<and>
    (sp = None \<or> (\<exists>buf. sp = Some buf \<and> bufsize \<noteq> 0 \<and> unat bufsize \<le> length buf) \<longrightarrow>
       (\<exists>h' e b. q_remove_head h head sp bufsize = Inr (h', e, b) \<and> ring h' head (tl ps)) \<and>
       (\<exists>h' e b. q_remove_tail h head sp bufsize = Inr (h', e, b) \<and> ring h' head (butlast ps))) \<and>
    (\<exists>h' r. q_delete_mid h head = Some (h', r) \<and>
       ring h' head (if ps = [] then [] else delete_nth (length ps div 2) ps)) \<and>
    (\<exists>h'. q_delete_dup h head = Some (h', True) \<and> ring h' head (drop_runs (payload h) ps)) \<and>
    (\<exists>h'. q_swap h head = Some h' \<and> ring h' head (swap_pairs ps)) \<and>
    (\<exists>h'. q_reverse h head = Some h' \<and> ring h' head (rev ps)) \<and>
    (length ps < 2 ^ 31 \<longrightarrow>
       (\<exists>h'. q_sort lf h head = Some h' \<and> ring h' head (msort_by (payload h) ps)))"
proof (intro conjI impI ballI)
  show "path (nxt h) head ps head" "path (prv h) head (rev ps) head" "distinct (head # ps)"
    using assms by (simp_all add: ring_def)
  show "prv h (nxt h a) = a" if "a \<in> set (head # ps)" for a
    using assms that by (rule ring_symmetry)
next
  assume a: "set (head # ps) \<subseteq> allocd h \<and> (r1 = NULL \<or> r1 \<notin> allocd h)"
  show "ring (fst (q_insert_head h head s r1 r2)) head
         (if r1 \<noteq> NULL \<and> r2 \<noteq> NULL then r1 # ps else ps)"
    using q_insert_ring(1) [OF assms] a by blast
  show "ring (fst (q_insert_tail h head s r1 r2)) head
         (if r1 \<noteq> NULL \<and> r2 \<noteq> NULL then ps @ [r1] else ps)"
    using q_insert_ring(2) [OF assms] a by blast
next
  assume b: "sp = None \<or> (\<exists>buf. sp = Some buf \<and> bufsize \<noteq> 0 \<and> unat bufsize \<le> length buf)"
  show "\<exists>h' e b. q_remove_head h head sp bufsize = Inr (h', e, b) \<and> ring h' head (tl ps)"
    using assms b by (rule q_remove_head_ring)
  show "\<exists>h' e b. q_remove_tail h head sp bufsize = Inr (h', e, b) \<and> ring h' head (butlast ps)"
    using assms b by (rule q_remove_tail_ring)
next
  show "\<exists>h' r. q_delete_mid h head = Some (h', r) \<and>
       ring h' head (if ps = [] then [] else delete_nth (length ps div 2) ps)"
    using assms by (rule q_delete_mid_keeps_ring)
  show "\<exists>h'. q_delete_dup h head = Some (h', True) \<and> ring h' head (drop_runs (payload h) ps)"
    using q_delete_dup_ring [OF assms] by blast
  show "\<exists>h'. q_swap h head = Some h' \<and> ring h' head (swap_pairs ps)"
    using q_swap_ring [OF assms] by blast
  show "\<exists>h'. q_reverse h head = Some h' \<and> ring h' head (rev ps)"
    using q_reverse_ring [OF assms] ring_swap_links [OF assms] by simp
  show "\<exists>h'. q_sort lf h head = Some h' \<and> ring h' head (msort_by (payload h) ps)"
    if "length ps < 2 ^ 31"
    using q_sort_ring [OF assms that, of lf] by blast
qed

theorem ring_invariants_preserved_witness:
  "ring (queue_of [''b'', ''a'']) 1 [2, 3] \<and>
   set [1, 2, 3] \<subseteq> allocd (queue_of [''b'', ''a'']) \<and> 10 \<notin> allocd (queue_of [''b'', ''a'']) \<and>
   length [2 :: ptr, 3] < 2 ^ 31 \<and>
   ring (fst (q_insert_head (queue_of [''b'', ''a'']) 1 ''c'' 10 11)) 1 [10, 2, 3] \<and>
   ring (fst (q_insert_tail (queue_of [''b'', ''a'']) 1 ''c'' 10 NULL)) 1 [2, 3] \<and>
   (\<exists>h' e b. q_remove_head (queue_of [''b'', ''a'']) 1 None (0 :: 64 word) = Inr (h', e, b) \<and>
      ring h' 1 [3]) \<and>
   (\<exists>h' e b. q_remove_tail (queue_of [''b'', ''a'']) 1 (Some ''xx'') (2 :: 64 word) = Inr (h', e, b) \<and>
      ring h' 1 [2]) \<and>
   (\<exists>h' r. q_delete_mid (queue_of [''b'', ''a'']) 1 = Some (h', r) \<and> ring h' 1 [2]) \<and>
   (\<exists>h'. q_delete_dup (queue_of [''b'', ''a'']) 1 = Some (h', True) \<and> ring h' 1 [2, 3]) \<and>
   (\<exists>h'. q_swap (queue_of [''b'', ''a'']) 1 = Some h' \<and> ring h' 1 [3, 2]) \<and>
   (\<exists>h'. q_reverse (queue_of [''b'', ''a'']) 1 = Some h' \<and> ring h' 1 [3, 2]) \<and>
   (\<exists>h'. q_sort True (queue_of [''b'', ''a'']) 1 = Some h' \<and> ring h' 1 [3, 2])"
proof -
  let ?q = "queue_of [''b'', ''a'']"
  have r: "ring ?q 1 [2, 3]" by (simp add: ring_def queue_of_def)
  have al: "set [1, 2, 3] \<subseteq> allocd ?q" "10 \<notin> allocd ?q" by (simp_all add: queue_of_def)
  have l: "length [2 :: ptr, 3] < 2 ^ 31" by simp
  have p: "payload ?q 2 = ''b''" "payload ?q 3 = ''a''"
    by (simp_all add: payload_def queue_of_def)
  have ev: "delete_nth (length [2 :: ptr, 3] div 2) [2 :: ptr, 3] = [2]"
    "drop_runs (payload ?q) [2, 3] = [2, 3]" "msort_by (payload ?q) [2, 3] = [3, 2]"
    by (simp_all add: delete_nth_def p msort_by.simps)
  have a1: "set (1 # [2, 3]) \<subseteq> allocd ?q \<and> ((10 :: ptr) = NULL \<or> 10 \<notin> allocd ?q)"
    using al by simp
  have b1: "(None :: char list option) = None \<or>
      (\<exists>buf. None = Some buf \<and> (0 :: 64 word) \<noteq> 0 \<and> unat (0 :: 64 word) \<le> length buf)"
    by simp
  have b2: "Some ''xx'' = None \<or>
      (\<exists>buf. Some ''xx'' = Some buf \<and> (2 :: 64 word) \<noteq> 0 \<and> unat (2 :: 64 word) \<le> length buf)"
    by simp
  note t = ring_invariants_preserved [OF r, of 10 "''c''" 11 None "0 :: 64 word" True]
  note u = ring_invariants_preserved [OF r, of 10 "''c''" NULL "Some ''xx''" "2 :: 64 word" True]
  note t2 = t [THEN conjunct2]
  note t3 = t2 [THEN conjunct2]
  note t4 = t3 [THEN conjunct2]
  note t5 = t4 [THEN conjunct2]
  note t6 = t5 [THEN conjunct2]
  note t7 = t6 [THEN conjunct2]
  note t8 = t7 [THEN conjunct2]
  have ih: "ring (fst (q_insert_head ?q 1 ''c'' 10 11)) 1 [10, 2, 3]"
    using t2 [THEN conjunct1, THEN mp, OF a1, THEN conjunct1] by simp
  have it: "ring (fst (q_insert_tail ?q 1 ''c'' 10 NULL)) 1 [2, 3]"
    using u [THEN conjunct2, THEN conjunct1, THEN mp, OF a1, THEN conjunct2] by simp
  have rh: "\<exists>h' e b. q_remove_head ?q 1 None (0 :: 64 word) = Inr (h', e, b) \<and> ring h' 1 [3]"
    using t3 [THEN conjunct1, THEN mp, OF b1, THEN conjunct1] by simp
  have rt: "\<exists>h' e b. q_remove_tail ?q 1 (Some ''xx'') (2 :: 64 word) = Inr (h', e, b) \<and> ring h' 1 [2]"
    using u [THEN conjunct2, THEN conjunct2, THEN conjunct1, THEN mp, OF b2, THEN conjunct2] by simp
  have dm: "\<exists>h' r. q_delete_mid ?q 1 = Some (h', r) \<and> ring h' 1 [2]"
    using t4 [THEN conjunct1] unfolding ev by simp
  have dd: "\<exists>h'. q_delete_dup ?q 1 = Some (h', True) \<and> ring h' 1 [2, 3]"
    using t5 [THEN conjunct1] unfolding ev .
  have sw: "\<exists>h'. q_swap ?q 1 = Some h' \<and> ring h' 1 [3, 2]"
    using t6 [THEN conjunct1] by simp
  have rv: "\<exists>h'. q_reverse ?q 1 = Some h' \<and> ring h' 1 [3, 2]"
    using t7 [THEN conjunct1] by simp
  have so: "\<exists>h'. q_sort True ?q 1 = Some h' \<and> ring h' 1 [3, 2]"
    using t8 [THEN mp, OF l] unfolding ev .
  show ?thesis using r al l ih it rh rt dm dd sw rv so by (intro conjI)
qed

end
